theory Spec2Isabelle
  imports Complex_Main "HOL-Library.Word"
begin

section \<open>The gravitational lens warp of gravilens-warp.py\<close>

text \<open>
  The plug-in has one function, \<open>gravilens_warp\<close>. It reads the pixels of a layer into a
  flat byte array, and for every pixel of the selected rectangle computes a sampling
  position from the distance to the centre of the rectangle, then copies the bytes found
  there (or zero bytes) into a second array of the same length.

  Numbers. The loop counters, the selection bounds and the array positions are Python
  integers: \<open>nat\<close> and \<open>int\<close> here. Every other number of the function is a Python float;
  the model computes with them as exact real numbers (\<open>real\<close>), so it describes the
  arithmetic the code is written to do, without the rounding of binary floating point.
  A double rounds, so the code can take another branch than the model where a value falls
  on a boundary: two radii from different percentages can round to the same double, a
  position next to a tie of \<open>round\<close> can fall on its other side, and \<open>1 - ratio\<close> is
  \<open>1.0\<close> for a very small positive ratio. The results of the last section that use this
  model therefore are of three kinds only: results about which bytes the loops write
  (integer code), results that take the radii as the code computed them and whose
  conclusion is the same in doubles, and runs on small inputs where every float that
  decides a branch is exact in doubles or far from the boundary. The shaping step, whose
  branches depend on the rounding, is modelled a second time in doubles (the last
  subsection of the definitions).
  The array items are unsigned bytes (\<open>array("B", ...)\<close>): \<open>8 word\<close>.

  Errors. An index outside an array raises \<open>IndexError\<close> and a float division or modulo
  by zero raises \<open>ZeroDivisionError\<close>; nothing catches them, so the function returns
  \<open>Inl\<close> of the error, and \<open>Inr\<close> of the destination array when it runs to its end.
\<close>

subsection \<open>Python values\<close>

datatype py_error = IndexError | ZeroDivisionError

type_synonym byte = "8 word"

text \<open>Sequencing of two computations that may raise.\<close>

definition and_then :: "py_error + 'a \<Rightarrow> ('a \<Rightarrow> py_error + 'b) \<Rightarrow> py_error + 'b" where
  "and_then m f = (case m of Inl e \<Rightarrow> Inl e | Inr v \<Rightarrow> f v)"

text \<open>\<open>a / b\<close> and \<open>a % b\<close> on floats; the result of \<open>%\<close> has the sign of \<open>b\<close>.\<close>

definition py_div :: "real \<Rightarrow> real \<Rightarrow> py_error + real" where
  "py_div a b = (if b = 0 then Inl ZeroDivisionError else Inr (a / b))"

definition py_mod :: "real \<Rightarrow> real \<Rightarrow> py_error + real" where
  "py_mod a b = (if b = 0 then Inl ZeroDivisionError
                 else Inr (a - b * of_int \<lfloor>a / b\<rfloor>))"

text \<open>\<open>round(v)\<close> of Python 2: to the nearest integer, a tie away from zero; the result
  is a float. \<open>int(v)\<close> truncates towards zero.\<close>

definition py_round :: "real \<Rightarrow> real" where
  "py_round v = (if 0 \<le> v then of_int \<lfloor>v + 1 / 2\<rfloor> else of_int \<lceil>v - 1 / 2\<rceil>)"

definition py_int :: "real \<Rightarrow> int" where
  "py_int v = (if 0 \<le> v then \<lfloor>v\<rfloor> else \<lceil>v\<rceil>)"

definition hypot :: "real \<Rightarrow> real \<Rightarrow> real" where
  "hypot dx dy = sqrt (dx * dx + dy * dy)"

text \<open>Reading and writing an item of an array; a negative index counts from the end.\<close>

definition array_get :: "byte list \<Rightarrow> int \<Rightarrow> py_error + byte" where
  "array_get a i =
     (let n = int (length a); j = (if i < 0 then i + n else i)
      in if 0 \<le> j \<and> j < n then Inr (a ! nat j) else Inl IndexError)"

definition array_set :: "byte list \<Rightarrow> int \<Rightarrow> byte \<Rightarrow> py_error + byte list" where
  "array_set a i v =
     (let n = int (length a); j = (if i < 0 then i + n else i)
      in if 0 \<le> j \<and> j < n then Inr (a[nat j := v]) else Inl IndexError)"

text \<open>\<open>for k in ks: s = body(k, s)\<close>, left at the first error.\<close>

fun for_loop :: "nat list \<Rightarrow> (nat \<Rightarrow> 's \<Rightarrow> py_error + 's) \<Rightarrow> 's \<Rightarrow> py_error + 's" where
  "for_loop [] body s = Inr s"
| "for_loop (k # ks) body s = and_then (body k s) (for_loop ks body)"

subsection \<open>The image and the layer\<close>

text \<open>What the function reads of its arguments: the size of the image and the answer of
  \<open>gimp_selection_bounds\<close>; the size of the layer, the bytes per pixel and the pixels
  of the whole layer, row after row.\<close>

record image =
  img_width :: nat
  img_height :: nat
  selection_bounds :: "bool \<times> int \<times> int \<times> int \<times> int"

record layer =
  width :: nat
  height :: nat
  bpp :: nat
  pixels :: "byte list"

definition valid_layer :: "'a layer_scheme \<Rightarrow> bool" where
  "valid_layer l \<longleftrightarrow> 0 < width l \<and> 0 < height l \<and> 0 < bpp l
     \<and> length (pixels l) = width l * height l * bpp l"

subsection \<open>The constants of a run\<close>

definition get_selection :: "'a image_scheme \<Rightarrow> int \<times> int \<times> int \<times> int" where
  "get_selection img =
     (case selection_bounds img of (is_selection, x1, y1, x2, y2) \<Rightarrow>
        if \<not> is_selection then (0, 0, int (img_width img), int (img_height img))
        else (x1, y1, x2, y2))"

definition max_radius :: "int \<Rightarrow> int \<Rightarrow> int \<Rightarrow> int \<Rightarrow> real" where
  "max_radius x1 y1 x2 y2 = of_int (min (x2 - x1) (y2 - y1)) / 2"

definition radius :: "real \<Rightarrow> real \<Rightarrow> real" where
  "radius mr percent = mr * percent / 100"

definition center :: "int \<Rightarrow> int \<Rightarrow> real" where
  "center a1 a2 = of_int (a2 + a1) / 2"

subsection \<open>The warp position of a pixel\<close>

text \<open>\<open>denom = (outer_radius - inner_radius) or 1\<close>\<close>

definition denom :: "real \<Rightarrow> real \<Rightarrow> real" where
  "denom inner_radius outer_radius =
     (if outer_radius - inner_radius = 0 then 1 else outer_radius - inner_radius)"

text \<open>\<open>ratio = min(1, (r - inner_radius) / denom)\<close>\<close>

definition raw_ratio :: "real \<Rightarrow> real \<Rightarrow> real \<Rightarrow> py_error + real" where
  "raw_ratio inner_radius outer_radius r =
     and_then (py_div (r - inner_radius) (denom inner_radius outer_radius))
       (\<lambda>q. Inr (min 1 q))"

text \<open>The lines under \<open>if ratio > 0\<close>.\<close>

definition shape :: "real \<Rightarrow> real" where
  "shape ratio =
     (if ratio > 0 then
        (let ratio' = 1 - (1 - ratio)\<^sup>2
         in if ratio' > 0 then sqrt ratio' else - sqrt \<bar>ratio'\<bar>)
      else ratio)"

text \<open>The final ratio of the pixel \<open>(x, y)\<close>.\<close>

definition final_ratio :: "real \<Rightarrow> real \<Rightarrow> real \<Rightarrow> real \<Rightarrow> nat \<Rightarrow> nat \<Rightarrow> py_error + real" where
  "final_ratio inner_radius outer_radius x_center y_center x y =
     (let dx = real x - x_center; dy = real y - y_center;
          r = hypot dx dy
      in and_then (raw_ratio inner_radius outer_radius r) (\<lambda>ratio. Inr (shape ratio)))"

text \<open>\<open>int(round((d * ratio + c) % size))\<close>\<close>

definition warp_coord :: "real \<Rightarrow> real \<Rightarrow> real \<Rightarrow> nat \<Rightarrow> py_error + int" where
  "warp_coord d ratio c extent =
     and_then (py_mod (d * ratio + c) (real extent)) (\<lambda>m. Inr (py_int (py_round m)))"

subsection \<open>The pixel loop\<close>

text \<open>The loop over the bytes of one pixel: the value is read from the source only when
  \<open>ratio >= 0 or inside\<close>.\<close>

definition copy_byte :: "byte list \<Rightarrow> int \<Rightarrow> int \<Rightarrow> bool \<Rightarrow> nat \<Rightarrow> byte list \<Rightarrow> py_error + byte list" where
  "copy_byte src_array pos_orig pos_warp sample i dst_array =
     and_then (if sample then array_get src_array (pos_warp + int i) else Inr 0)
       (\<lambda>val. array_set dst_array (pos_orig + int i) val)"

text \<open>The body of the inner loop, for a pixel of the selected rectangle.\<close>

definition warp_pixel ::
  "nat \<Rightarrow> nat \<Rightarrow> nat \<Rightarrow> byte list \<Rightarrow> real \<Rightarrow> real \<Rightarrow> real \<Rightarrow> real \<Rightarrow> bool
     \<Rightarrow> nat \<Rightarrow> nat \<Rightarrow> byte list \<Rightarrow> py_error + byte list" where
  "warp_pixel w h pixel_size src_array inner_radius outer_radius x_center y_center inside
       x y dst_array =
     and_then (final_ratio inner_radius outer_radius x_center y_center x y) (\<lambda>ratio.
     and_then (warp_coord (real x - x_center) ratio x_center w) (\<lambda>x_warp.
     and_then (warp_coord (real y - y_center) ratio y_center h) (\<lambda>y_warp.
       (let pos_orig = (int y * int w + int x) * int pixel_size;
            pos_warp = (y_warp * int w + x_warp) * int pixel_size
        in for_loop [0..<pixel_size]
             (copy_byte src_array pos_orig pos_warp (ratio \<ge> 0 \<or> inside)) dst_array))))"

text \<open>The two loops over the layer, from \<open>calculate constants\<close> on: the columns outside
  \<open>x1 \<le> x < x2\<close> and the rows outside \<open>y1 \<le> y < y2\<close> are skipped.\<close>

definition warp_region ::
  "nat \<Rightarrow> nat \<Rightarrow> nat \<Rightarrow> byte list \<Rightarrow> int \<Rightarrow> int \<Rightarrow> int \<Rightarrow> int \<Rightarrow> real \<Rightarrow> real \<Rightarrow> bool
     \<Rightarrow> py_error + byte list" where
  "warp_region w h pixel_size src_array x1 y1 x2 y2
       inner_radius_percent outer_radius_percent inside =
     (let mr = max_radius x1 y1 x2 y2;
          inner_radius = radius mr inner_radius_percent;
          outer_radius = radius mr outer_radius_percent;
          x_center = center x1 x2;
          y_center = center y1 y2
      in for_loop [0..<w] (\<lambda>x dst_array.
           if int x < x1 \<or> int x \<ge> x2 then Inr dst_array
           else for_loop [0..<h] (\<lambda>y dst_array.
                  if int y < y1 \<or> int y \<ge> y2 then Inr dst_array
                  else warp_pixel w h pixel_size src_array inner_radius outer_radius
                         x_center y_center inside x y dst_array) dst_array)
           src_array)"

text \<open>The same two loops for given values of \<open>inner_radius\<close> and \<open>outer_radius\<close>: what
  lines 62 to 88 do once lines 47 and 48 have computed the radii, whatever the radii are
  (lemma \<open>warp_region_loops\<close>).\<close>

definition warp_loops ::
  "nat \<Rightarrow> nat \<Rightarrow> nat \<Rightarrow> byte list \<Rightarrow> int \<Rightarrow> int \<Rightarrow> int \<Rightarrow> int \<Rightarrow> real \<Rightarrow> real \<Rightarrow> bool
     \<Rightarrow> py_error + byte list" where
  "warp_loops w h pixel_size src_array x1 y1 x2 y2 inner_radius outer_radius inside =
     (let x_center = center x1 x2;
          y_center = center y1 y2
      in for_loop [0..<w] (\<lambda>x dst_array.
           if int x < x1 \<or> int x \<ge> x2 then Inr dst_array
           else for_loop [0..<h] (\<lambda>y dst_array.
                  if int y < y1 \<or> int y \<ge> y2 then Inr dst_array
                  else warp_pixel w h pixel_size src_array inner_radius outer_radius
                         x_center y_center inside x y dst_array) dst_array)
           src_array)"

text \<open>The function: the result is the array written to the new layer. A layer of GIMP has
  a positive width and height and its region holds width * height * bpp bytes
  (\<open>valid_layer\<close>), so \<open>len(src_rgn[0, 0])\<close> is the number of bytes per pixel; the calls of
  the host before and after the loops (progress, undo group, the temporary layer) do not
  touch the arrays and are left out.\<close>

definition gravilens_warp ::
  "'a image_scheme \<Rightarrow> 'b layer_scheme \<Rightarrow> real \<Rightarrow> real \<Rightarrow> bool \<Rightarrow> py_error + byte list" where
  "gravilens_warp img layer inner_radius_percent outer_radius_percent inside =
     (case get_selection img of (x1, y1, x2, y2) \<Rightarrow>
        warp_region (width layer) (height layer) (bpp layer) (pixels layer) x1 y1 x2 y2
          inner_radius_percent outer_radius_percent inside)"

subsection \<open>Notions used to state the results\<close>

text \<open>The pixel number \<open>k\<close> of a buffer with \<open>c\<close> bytes per pixel; the pixel \<open>(x, y)\<close> of a
  layer of width \<open>w\<close> has the number \<open>y * w + x\<close>.\<close>

definition pixel_at :: "nat \<Rightarrow> byte list \<Rightarrow> nat \<Rightarrow> byte list" where
  "pixel_at c buf k = take c (drop (k * c) buf)"

text \<open>The final ratio and the warped coordinate as plain values: what \<open>final_ratio\<close> and
  \<open>warp_coord\<close> return when they return (lemmas \<open>final_ratio_eq\<close> and \<open>warp_coord_eq\<close>).\<close>

definition ratio_at :: "real \<Rightarrow> real \<Rightarrow> real \<Rightarrow> real \<Rightarrow> nat \<Rightarrow> nat \<Rightarrow> real" where
  "ratio_at inner_radius outer_radius x_center y_center x y =
     shape (min 1 ((hypot (real x - x_center) (real y - y_center) - inner_radius)
                     / denom inner_radius outer_radius))"

definition coord_at :: "real \<Rightarrow> real \<Rightarrow> real \<Rightarrow> nat \<Rightarrow> nat" where
  "coord_at d ratio c extent =
     nat \<lfloor>d * ratio + c - real extent * of_int \<lfloor>(d * ratio + c) / real extent\<rfloor> + 1 / 2\<rfloor>"

text \<open>The byte number \<open>i\<close> that the loop writes for the pixel \<open>(x, y)\<close> of the selected
  rectangle: the byte of the source at the warp position, or zero.\<close>

definition warped_byte ::
  "nat \<Rightarrow> nat \<Rightarrow> nat \<Rightarrow> byte list \<Rightarrow> real \<Rightarrow> real \<Rightarrow> real \<Rightarrow> real \<Rightarrow> bool
     \<Rightarrow> nat \<Rightarrow> nat \<Rightarrow> nat \<Rightarrow> byte" where
  "warped_byte w h c src_array inner_radius outer_radius x_center y_center inside x y i =
     (let ratio = ratio_at inner_radius outer_radius x_center y_center x y;
          x_warp = coord_at (real x - x_center) ratio x_center w;
          y_warp = coord_at (real y - y_center) ratio y_center h
      in if ratio \<ge> 0 \<or> inside then src_array ! ((y_warp * w + x_warp) * c + i) else 0)"

subsection \<open>The ratio in doubles\<close>













subsection \<open>Example inputs\<close>

text \<open>An image with no selection and a layer of the same size: 2 by 2 pixels of one byte.\<close>

definition img2 :: image where
  "img2 = \<lparr>img_width = 2, img_height = 2, selection_bounds = (False, 0, 0, 0, 0)\<rparr>"

definition lay2 :: layer where
  "lay2 = \<lparr>width = 2, height = 2, bpp = 1, pixels = [1, 2, 3, 4]\<rparr>"

text \<open>The same image with its top left pixel selected.\<close>

definition img2_sel :: image where
  "img2_sel = \<lparr>img_width = 2, img_height = 2, selection_bounds = (True, 0, 0, 1, 1)\<rparr>"

text \<open>3 by 2 pixels and 1 by 2 pixels of one byte, no selection.\<close>

definition img3x2 :: image where
  "img3x2 = \<lparr>img_width = 3, img_height = 2, selection_bounds = (False, 0, 0, 0, 0)\<rparr>"

definition lay3x2 :: layer where
  "lay3x2 = \<lparr>width = 3, height = 2, bpp = 1, pixels = [1, 2, 3, 4, 5, 6]\<rparr>"

definition img1x2 :: image where
  "img1x2 = \<lparr>img_width = 1, img_height = 2, selection_bounds = (False, 0, 0, 0, 0)\<rparr>"

definition lay1x2 :: layer where
  "lay1x2 = \<lparr>width = 1, height = 2, bpp = 1, pixels = [1, 2]\<rparr>"

text \<open>4 by 4 RGB pixels, every one \<open>(10, 20, 30)\<close>, no selection.\<close>

definition img4 :: image where
  "img4 = \<lparr>img_width = 4, img_height = 4, selection_bounds = (False, 0, 0, 0, 0)\<rparr>"

definition lay4 :: layer where
  "lay4 = \<lparr>width = 4, height = 4, bpp = 3, pixels = concat (replicate 16 [10, 20, 30])\<rparr>"

text \<open>8 by 8 pixels of one byte, no selection.\<close>

definition img8 :: image where
  "img8 = \<lparr>img_width = 8, img_height = 8, selection_bounds = (False, 0, 0, 0, 0)\<rparr>"

definition lay8 :: layer where
  "lay8 = \<lparr>width = 8, height = 8, bpp = 1, pixels = replicate 64 7\<rparr>"


section \<open>Lemmas about the model\<close>

subsection \<open>Sequencing and loops\<close>

lemma and_then_Inr_iff:
  "and_then m f = Inr v \<longleftrightarrow> (\<exists>u. m = Inr u \<and> f u = Inr v)"
  by (cases m) (simp_all add: and_then_def)

lemma and_then_Inl_iff:
  "and_then m f = Inl e \<longleftrightarrow> m = Inl e \<or> (\<exists>u. m = Inr u \<and> f u = Inl e)"
  by (cases m) (simp_all add: and_then_def)

lemma and_then_simps [simp]:
  "and_then (Inl e) f = Inl e" "and_then (Inr u) f = f u"
  by (simp_all add: and_then_def)

lemma for_loop_error:
  "for_loop ks body s = Inl e \<Longrightarrow> \<exists>k \<in> set ks. \<exists>t. body k t = Inl e"
proof (induction ks arbitrary: s)
  case Nil
  then show ?case by simp
next
  case (Cons k ks)
  then show ?case
    by (auto simp: and_then_Inl_iff)
qed

lemma for_loop_writes:
  assumes "for_loop ks body s = Inr s'"
    and "distinct ks"
    and step: "\<And>k t t'. k \<in> set ks \<Longrightarrow> length t = length s \<Longrightarrow> body k t = Inr t' \<Longrightarrow>
       length t' = length t \<and> (\<forall>j<length t. t' ! j = (if j \<in> F k then V k j else t ! j))"
    and disj: "\<And>k k'. k \<in> set ks \<Longrightarrow> k' \<in> set ks \<Longrightarrow> k \<noteq> k' \<Longrightarrow> F k \<inter> F k' = {}"
  shows "length s' = length s \<and>
     (\<forall>j<length s. (\<forall>k\<in>set ks. j \<in> F k \<longrightarrow> s' ! j = V k j) \<and>
                    ((\<forall>k\<in>set ks. j \<notin> F k) \<longrightarrow> s' ! j = s ! j))"
  using assms
proof (induction ks arbitrary: s)
  case Nil
  then show ?case by simp
next
  case (Cons k ks)
  from Cons.prems(1) obtain t where t: "body k s = Inr t" and rest: "for_loop ks body t = Inr s'"
    by (auto simp: and_then_Inr_iff)
  have st: "length t = length s \<and> (\<forall>j<length s. t ! j = (if j \<in> F k then V k j else s ! j))"
    using Cons.prems(3)[of k s t] t by simp
  have ih: "length s' = length t \<and>
     (\<forall>j<length t. (\<forall>k\<in>set ks. j \<in> F k \<longrightarrow> s' ! j = V k j) \<and>
                    ((\<forall>k\<in>set ks. j \<notin> F k) \<longrightarrow> s' ! j = t ! j))"
  proof (rule Cons.IH[OF rest])
    show "distinct ks" using Cons.prems(2) by simp
  next
    fix k' u u' assume "k' \<in> set ks" "length u = length t" "body k' u = Inr u'"
    then show "length u' = length u \<and> (\<forall>j<length u. u' ! j = (if j \<in> F k' then V k' j else u ! j))"
      using Cons.prems(3)[of k' u u'] st by simp
  next
    fix k' k'' assume "k' \<in> set ks" "k'' \<in> set ks" "k' \<noteq> k''"
    then show "F k' \<inter> F k'' = {}" using Cons.prems(4)[of k' k''] by simp
  qed
  have head_disj: "\<And>k' j. k' \<in> set ks \<Longrightarrow> j \<in> F k \<Longrightarrow> j \<notin> F k'"
  proof -
    fix k' j assume a: "k' \<in> set ks" "j \<in> F k"
    have "k \<noteq> k'" using a(1) Cons.prems(2) by auto
    then have "F k \<inter> F k' = {}" using Cons.prems(4)[of k k'] a(1) by simp
    then show "j \<notin> F k'" using a(2) by auto
  qed
  show ?case
  proof (intro conjI allI impI)
    show "length s' = length s" using ih st by simp
  next
    fix j assume j: "j < length s"
    show "\<forall>k'\<in>set (k # ks). j \<in> F k' \<longrightarrow> s' ! j = V k' j"
    proof (intro ballI impI)
      fix k' assume k': "k' \<in> set (k # ks)" and jk: "j \<in> F k'"
      show "s' ! j = V k' j"
      proof (cases "k' \<in> set ks")
        case True
        then show ?thesis using ih j st jk by simp
      next
        case False
        then have [simp]: "k' = k" using k' by simp
        have "\<forall>k''\<in>set ks. j \<notin> F k''" using head_disj jk by auto
        then have "s' ! j = t ! j" using ih j st by simp
        then show ?thesis using st j jk by simp
      qed
    qed
  next
    fix j assume j: "j < length s" and no: "\<forall>k'\<in>set (k # ks). j \<notin> F k'"
    then have "s' ! j = t ! j" using ih st by simp
    then show "s' ! j = s ! j" using st j no by simp
  qed
qed


subsection \<open>Arithmetic of one pixel\<close>

lemma denom_nonzero: "denom i o' \<noteq> 0"
  by (simp add: denom_def)

lemma raw_ratio_eq: "raw_ratio i o' r = Inr (min 1 ((r - i) / denom i o'))"
  by (simp add: raw_ratio_def py_div_def denom_nonzero)

lemma final_ratio_eq: "final_ratio i o' cx cy x y = Inr (ratio_at i o' cx cy x y)"
  by (simp add: final_ratio_def raw_ratio_eq ratio_at_def Let_def)

lemma py_mod_range:
  assumes "0 < n"
  shows "\<exists>m. py_mod a (real n) = Inr m \<and> 0 \<le> m \<and> m < real n"
proof -
  let ?q = "\<lfloor>a / real n\<rfloor>"
  have pos: "0 < real n" using assms by simp
  have "of_int ?q \<le> a / real n" by (rule of_int_floor_le)
  then have "of_int ?q * real n \<le> a"
    by (simp only: pos_le_divide_eq[OF pos])
  then have lo: "real n * of_int ?q \<le> a"
    by (simp only: mult.commute)
  have "a / real n < of_int ?q + 1" by linarith
  then have "a < (of_int ?q + 1) * real n"
    by (simp only: pos_divide_less_eq[OF pos])
  then have hi: "a - real n * of_int ?q < real n" by (simp add: algebra_simps)
  show ?thesis using lo hi assms by (simp add: py_mod_def)
qed

lemma py_int_py_round: "0 \<le> m \<Longrightarrow> py_int (py_round m) = \<lfloor>m + 1 / 2\<rfloor>"
proof -
  assume m: "0 \<le> m"
  have "0 \<le> \<lfloor>m + 1 / 2\<rfloor>" using m by (simp add: zero_le_floor)
  then show ?thesis using m by (simp add: py_round_def py_int_def)
qed

lemma warp_coord_range:
  assumes "0 < n"
  shows "\<exists>k. warp_coord d ratio c n = Inr k \<and> 0 \<le> k \<and> k \<le> int n"
proof -
  obtain m where m: "py_mod (d * ratio + c) (real n) = Inr m" "0 \<le> m" "m < real n"
    using py_mod_range[OF assms] by blast
  have "0 \<le> \<lfloor>m + 1 / 2\<rfloor>" using m(2) by (simp add: zero_le_floor)
  moreover have "\<lfloor>m + 1 / 2\<rfloor> \<le> int n"
  proof -
    have "m + 1 / 2 < real_of_int (int n) + 1" using m(3) by simp
    then show ?thesis by (simp add: floor_le_iff)
  qed
  ultimately show ?thesis
    using m by (simp add: warp_coord_def py_int_py_round)
qed

lemma warp_coord_zero: "warp_coord d ratio c 0 = Inl ZeroDivisionError"
  by (simp add: warp_coord_def py_mod_def)

text \<open>A position that is already a pixel of the row or column stays where it is.\<close>

lemma py_mod_small:
  assumes "0 \<le> v" "v < real n"
  shows "py_mod v (real n) = Inr v"
proof -
  have n: "0 < real n" using assms by linarith
  have "\<lfloor>v / real n\<rfloor> = 0"
    using assms n by (simp add: floor_eq_iff pos_divide_less_eq)
  then show ?thesis using n by (simp add: py_mod_def)
qed

lemma warp_coord_small:
  assumes "0 \<le> v" "v < real n" "v = d * ratio + c"
  shows "warp_coord d ratio c n = Inr \<lfloor>v + 1 / 2\<rfloor>"
  using py_mod_small[OF assms(1,2)] assms(1,3)
  by (simp add: warp_coord_def py_int_py_round)


subsection \<open>The loop over the bytes of a pixel\<close>

lemma for_loop_all_ok:
  assumes "for_loop ks body s = Inr s'"
    and "I s"
    and "\<And>k t t'. k \<in> set ks \<Longrightarrow> I t \<Longrightarrow> body k t = Inr t' \<Longrightarrow> I t'"
  shows "\<forall>k\<in>set ks. \<exists>t t'. I t \<and> body k t = Inr t'"
  using assms
proof (induction ks arbitrary: s)
  case Nil
  then show ?case by simp
next
  case (Cons k ks)
  from Cons.prems(1) obtain t where t: "body k s = Inr t" and rest: "for_loop ks body t = Inr s'"
    by (auto simp: and_then_Inr_iff)
  have "I t" using Cons.prems(3)[of k s t] Cons.prems(2) t by simp
  moreover have "I u'" if "k' \<in> set ks" "I u" "body k' u = Inr u'" for k' u u'
    using Cons.prems(3)[of k' u u'] that by simp
  ultimately have "\<forall>k\<in>set ks. \<exists>t t'. I t \<and> body k t = Inr t'"
    using Cons.IH[OF rest] by blast
  then show ?case using t Cons.prems(2) by auto
qed

lemma for_loop_ok:
  assumes "I s"
    and "\<And>k t. k \<in> set ks \<Longrightarrow> I t \<Longrightarrow> \<exists>t'. body k t = Inr t' \<and> I t'"
  shows "\<exists>s'. for_loop ks body s = Inr s' \<and> I s'"
  using assms
proof (induction ks arbitrary: s)
  case Nil
  then show ?case by simp
next
  case (Cons k ks)
  obtain t where t: "body k s = Inr t" "I t"
    using Cons.prems(2)[of k s] Cons.prems(1) by auto
  have "\<exists>s'. for_loop ks body t = Inr s' \<and> I s'"
    using Cons.IH[OF t(2)] Cons.prems(2) by simp
  then show ?case using t(1) by simp
qed

lemma array_get_nat:
  "array_get a (int n) = (if n < length a then Inr (a ! n) else Inl IndexError)"
  by (simp add: array_get_def)

lemma array_set_nat:
  "array_set a (int n) v = (if n < length a then Inr (a[n := v]) else Inl IndexError)"
  by (simp add: array_set_def)

lemma copy_byte_nat:
  "copy_byte src (int p) (int q) sample i dst =
     (if sample \<and> \<not> q + i < length src then Inl IndexError
      else if \<not> p + i < length dst then Inl IndexError
      else Inr (dst[p + i := (if sample then src ! (q + i) else 0)]))"
  unfolding copy_byte_def of_nat_add[symmetric] array_get_nat array_set_nat
  by simp

lemma copy_byte_length:
  "copy_byte src (int p) (int q) sample i dst = Inr dst' \<Longrightarrow> length dst' = length dst"
  by (auto simp: copy_byte_nat split: if_splits)

lemma copy_pixel_writes:
  assumes "for_loop [0..<c] (copy_byte src (int p) (int q) sample) dst = Inr dst'"
  shows "length dst' = length dst"
    and "\<And>j. j < length dst \<Longrightarrow>
           dst' ! j = (if p \<le> j \<and> j < p + c then (if sample then src ! (q + (j - p)) else 0)
                       else dst ! j)"
proof -
  let ?F = "\<lambda>i. {p + i}"
  let ?V = "\<lambda>i j. if sample then src ! (q + (j - p)) else (0::byte)"
  have w: "length dst' = length dst \<and>
     (\<forall>j<length dst. (\<forall>k\<in>set [0..<c]. j \<in> ?F k \<longrightarrow> dst' ! j = ?V k j) \<and>
                    ((\<forall>k\<in>set [0..<c]. j \<notin> ?F k) \<longrightarrow> dst' ! j = dst ! j))"
  proof (rule for_loop_writes[OF assms])
    show "distinct [0..<c]" by simp
  next
    fix k t t'
    assume "k \<in> set [0..<c]" "length t = length dst"
      "copy_byte src (int p) (int q) sample k t = Inr t'"
    then show "length t' = length t \<and> (\<forall>j<length t. t' ! j = (if j \<in> ?F k then ?V k j else t ! j))"
      by (auto simp: copy_byte_nat split: if_splits)
  next
    fix k k' :: nat assume "k \<noteq> k'"
    then show "?F k \<inter> ?F k' = {}" by simp
  qed
  show "length dst' = length dst" using w by simp
  fix j assume j: "j < length dst"
  show "dst' ! j = (if p \<le> j \<and> j < p + c then (if sample then src ! (q + (j - p)) else 0)
                       else dst ! j)"
  proof (cases "p \<le> j \<and> j < p + c")
    case True
    then have "j - p \<in> set [0..<c]" "j \<in> ?F (j - p)" by auto
    then have "dst' ! j = ?V (j - p) j" using w j by blast
    then show ?thesis using True by simp
  next
    case False
    then have "\<forall>k\<in>set [0..<c]. j \<notin> ?F k" by auto
    then have "dst' ! j = dst ! j" using w j by blast
    then show ?thesis using False by auto
  qed
qed

lemma copy_pixel_in_range:
  assumes "for_loop [0..<c] (copy_byte src (int p) (int q) sample) dst = Inr dst'"
    and "0 < c"
  shows "p + c \<le> length dst" and "sample \<Longrightarrow> q + c \<le> length src"
proof -
  have "\<forall>k\<in>set [0..<c]. \<exists>t t'. length t = length dst \<and>
           copy_byte src (int p) (int q) sample k t = Inr t'"
    by (rule for_loop_all_ok[OF assms(1)]) (simp_all add: copy_byte_length)
  moreover have "c - 1 \<in> set [0..<c]" using assms(2) by simp
  ultimately obtain t t' where t: "length t = length dst"
      "copy_byte src (int p) (int q) sample (c - 1) t = Inr t'"
    by blast
  show "sample \<Longrightarrow> q + c \<le> length src"
    using t assms(2) by (auto simp: copy_byte_nat split: if_splits)
  show "p + c \<le> length dst"
    using t assms(2) by (auto simp: copy_byte_nat split: if_splits)
qed

lemma copy_pixel_ok:
  assumes "p + c \<le> length dst" and "sample \<Longrightarrow> q + c \<le> length src"
  shows "\<exists>dst'. for_loop [0..<c] (copy_byte src (int p) (int q) sample) dst = Inr dst'
           \<and> length dst' = length dst"
proof (rule for_loop_ok[where I = "\<lambda>t. length t = length dst"])
  show "length dst = length dst" by simp
next
  fix k and t :: "byte list" assume "k \<in> set [0..<c]" "length t = length dst"
  then show "\<exists>t'. copy_byte src (int p) (int q) sample k t = Inr t' \<and> length t' = length dst"
    using assms by (auto simp: copy_byte_nat)
qed


lemma warp_coord_eq:
  assumes "0 < n"
  shows "warp_coord d ratio c n = Inr (int (coord_at d ratio c n))"
proof -
  obtain m where m: "py_mod (d * ratio + c) (real n) = Inr m" "0 \<le> m"
    using py_mod_range[OF assms] by blast
  have "m = d * ratio + c - real n * of_int \<lfloor>(d * ratio + c) / real n\<rfloor>"
    using m(1) assms by (simp add: py_mod_def)
  moreover have "0 \<le> \<lfloor>m + 1 / 2\<rfloor>" using m(2) by (simp add: zero_le_floor)
  ultimately show ?thesis
    using m by (simp add: warp_coord_def py_int_py_round coord_at_def)
qed

lemma coord_at_le:
  assumes "0 < n"
  shows "coord_at d ratio c n \<le> n"
proof -
  obtain k where "warp_coord d ratio c n = Inr k" "k \<le> int n"
    using warp_coord_range[OF assms] by blast
  then show ?thesis using warp_coord_eq[OF assms, of d ratio c] by simp
qed

subsection \<open>One pixel\<close>

lemma warp_pixel_eq:
  assumes "0 < w" "0 < h"
  shows "warp_pixel w h c src ir or' cx cy inside x y dst =
     for_loop [0..<c]
       (copy_byte src (int ((y * w + x) * c))
          (int ((coord_at (real y - cy) (ratio_at ir or' cx cy x y) cy h * w
                 + coord_at (real x - cx) (ratio_at ir or' cx cy x y) cx w) * c))
          (ratio_at ir or' cx cy x y \<ge> 0 \<or> inside)) dst"
  by (simp add: warp_pixel_def final_ratio_eq warp_coord_eq[OF assms(1)] warp_coord_eq[OF assms(2)])

lemma warp_pixel_zero_width: "warp_pixel 0 h c src ir or' cx cy inside x y dst = Inl ZeroDivisionError"
  by (simp add: warp_pixel_def final_ratio_eq warp_coord_zero)

lemma warp_pixel_zero_height:
  "0 < w \<Longrightarrow> warp_pixel w 0 c src ir or' cx cy inside x y dst = Inl ZeroDivisionError"
  by (simp add: warp_pixel_def final_ratio_eq warp_coord_zero warp_coord_eq)


subsection \<open>The loops over the rows and the columns\<close>

lemma index_decomp:
  fixes j k c :: nat
  shows "(k * c \<le> j \<and> j < k * c + c) \<longleftrightarrow> (0 < c \<and> j div c = k)"
proof
  assume a: "k * c \<le> j \<and> j < k * c + c"
  then have c: "0 < c" by (cases c) simp_all
  have "j div c = k"
    by (rule div_nat_eqI) (use a in \<open>simp_all add: mult.commute\<close>)
  then show "0 < c \<and> j div c = k" using c by simp
next
  assume a: "0 < c \<and> j div c = k"
  have "j div c * c \<le> j" by simp
  moreover have "j < c + j div c * c"
    by (rule dividend_less_div_times) (use a in simp)
  ultimately show "k * c \<le> j \<and> j < k * c + c" using a by (simp add: add.commute)
qed

lemma index_offset:
  fixes j c :: nat
  shows "j - (j div c) * c = j mod c"
  by (simp add: minus_div_mult_eq_mod)

lemma pixel_index_div: "x < w \<Longrightarrow> (y * w + x) div w = (y::nat)"
  by simp

lemma pixel_index_mod: "x < w \<Longrightarrow> (y * w + x) mod w = (x::nat)"
  by simp

lemma byte_index_div: "i < c \<Longrightarrow> (k * c + i) div c = (k::nat)"
  by simp

lemma byte_index_mod: "i < c \<Longrightarrow> (k * c + i) mod c = (i::nat)"
  by simp


lemma warp_pixel_writes:
  assumes run: "warp_pixel w h c src ir or' cx cy inside x y dst = Inr dst'"
    and w: "0 < w" and h: "0 < h"
  shows "length dst' = length dst"
    and "\<And>j. j < length dst \<Longrightarrow>
           dst' ! j = (if 0 < c \<and> j div c = y * w + x
                       then warped_byte w h c src ir or' cx cy inside x y (j mod c)
                       else dst ! j)"
proof -
  let ?R = "ratio_at ir or' cx cy x y"
  let ?p = "(y * w + x) * c"
  let ?q = "(coord_at (real y - cy) ?R cy h * w + coord_at (real x - cx) ?R cx w) * c"
  have loop: "for_loop [0..<c] (copy_byte src (int ?p) (int ?q) (?R \<ge> 0 \<or> inside)) dst = Inr dst'"
    using run by (simp only: warp_pixel_eq[OF w h])
  show "length dst' = length dst" by (rule copy_pixel_writes(1)[OF loop])
  fix j assume j: "j < length dst"
  have eq: "dst' ! j = (if ?p \<le> j \<and> j < ?p + c
                        then (if ?R \<ge> 0 \<or> inside then src ! (?q + (j - ?p)) else 0)
                        else dst ! j)"
    by (rule copy_pixel_writes(2)[OF loop j])
  show "dst' ! j = (if 0 < c \<and> j div c = y * w + x
                       then warped_byte w h c src ir or' cx cy inside x y (j mod c)
                       else dst ! j)"
  proof (cases "0 < c \<and> j div c = y * w + x")
    case True
    have p: "?p \<le> j \<and> j < ?p + c"
      using True index_decomp[of "y * w + x" c j] by blast
    have off: "j - ?p = j mod c" using True index_offset[of j c] by simp
    have "dst' ! j = (if ?R \<ge> 0 \<or> inside then src ! (?q + (j - ?p)) else 0)"
      using eq by (simp only: if_P[OF p])
    also have "\<dots> = warped_byte w h c src ir or' cx cy inside x y (j mod c)"
      by (simp only: off warped_byte_def Let_def)
    finally show ?thesis by (simp only: if_P[OF True])
  next
    case False
    have n: "\<not> (?p \<le> j \<and> j < ?p + c)"
      using False index_decomp[of "y * w + x" c j] by blast
    have "dst' ! j = dst ! j" using eq by (simp only: if_not_P[OF n])
    then show ?thesis by (simp only: if_not_P[OF False])
  qed
qed

lemma row_loop_writes:
  assumes run: "for_loop [0..<h]
       (\<lambda>y dst. if int y < y1 \<or> int y \<ge> y2 then Inr dst
                 else warp_pixel w h c src ir or' cx cy inside x y dst) dst = Inr dst'"
    and x: "x < w"
  shows "length dst' = length dst"
    and "\<And>j. j < length dst \<Longrightarrow>
           dst' ! j = (if 0 < c \<and> (j div c) mod w = x \<and> (j div c) div w < h
                          \<and> y1 \<le> int ((j div c) div w) \<and> int ((j div c) div w) < y2
                       then warped_byte w h c src ir or' cx cy inside x ((j div c) div w) (j mod c)
                       else dst ! j)"
proof -
  let ?F = "\<lambda>y. {j. 0 < c \<and> j div c = y * w + x \<and> y1 \<le> int y \<and> int y < y2}"
  let ?V = "\<lambda>y j. warped_byte w h c src ir or' cx cy inside x y (j mod c)"
  have wr: "length dst' = length dst \<and>
     (\<forall>j<length dst. (\<forall>k\<in>set [0..<h]. j \<in> ?F k \<longrightarrow> dst' ! j = ?V k j) \<and>
                    ((\<forall>k\<in>set [0..<h]. j \<notin> ?F k) \<longrightarrow> dst' ! j = dst ! j))"
  proof (rule for_loop_writes[OF run])
    show "distinct [0..<h]" by simp
  next
    fix k and t t' :: "byte list"
    assume k: "k \<in> set [0..<h]" and len: "length t = length dst"
      and body: "(if int k < y1 \<or> int k \<ge> y2 then Inr t
                  else warp_pixel w h c src ir or' cx cy inside x k t) = Inr t'"
    show "length t' = length t \<and> (\<forall>j<length t. t' ! j = (if j \<in> ?F k then ?V k j else t ! j))"
    proof (cases "int k < y1 \<or> int k \<ge> y2")
      case True
      then show ?thesis using body by auto
    next
      case False
      then have p: "warp_pixel w h c src ir or' cx cy inside x k t = Inr t'" using body by simp
      have h: "0 < h" using k by auto
      have w: "0 < w" using x by simp
      show ?thesis
        using warp_pixel_writes[OF p w h] False by auto
    qed
  next
    fix k k' :: nat assume "k \<noteq> k'"
    then show "?F k \<inter> ?F k' = {}" using x by auto
  qed
  show "length dst' = length dst" using wr by simp
  fix j assume j: "j < length dst"
  let ?y = "(j div c) div w"
  show "dst' ! j = (if 0 < c \<and> (j div c) mod w = x \<and> ?y < h \<and> y1 \<le> int ?y \<and> int ?y < y2
                    then ?V ?y j else dst ! j)"
  proof (cases "0 < c \<and> (j div c) mod w = x \<and> ?y < h \<and> y1 \<le> int ?y \<and> int ?y < y2")
    case True
    then have "j div c = ?y * w + x" using div_mult_mod_eq[of "j div c" w] by simp
    then have "?y \<in> set [0..<h]" "j \<in> ?F ?y" using True by auto
    then have "dst' ! j = ?V ?y j" using wr j by blast
    then show ?thesis using True by simp
  next
    case False
    have "\<forall>k\<in>set [0..<h]. j \<notin> ?F k"
    proof (intro ballI notI)
      fix k assume k: "k \<in> set [0..<h]" and "j \<in> ?F k"
      then have a: "0 < c" "j div c = k * w + x" "y1 \<le> int k" "int k < y2" by auto
      then have "(j div c) mod w = x" "?y = k" using x by simp_all
      then show False using False a k by auto
    qed
    then have "dst' ! j = dst ! j" using wr j by blast
    then show ?thesis using False by auto
  qed
qed


lemma warp_region_writes:
  assumes run: "warp_region w h c src x1 y1 x2 y2 pin pout inside = Inr dst"
  shows "length dst = length src"
    and "\<And>x y i. x < w \<Longrightarrow> y < h \<Longrightarrow> i < c \<Longrightarrow> (y * w + x) * c + i < length src \<Longrightarrow>
           dst ! ((y * w + x) * c + i) =
             (if x1 \<le> int x \<and> int x < x2 \<and> y1 \<le> int y \<and> int y < y2
              then warped_byte w h c src (radius (max_radius x1 y1 x2 y2) pin)
                     (radius (max_radius x1 y1 x2 y2) pout) (center x1 x2) (center y1 y2)
                     inside x y i
              else src ! ((y * w + x) * c + i))"
proof -
  let ?ir = "radius (max_radius x1 y1 x2 y2) pin"
  let ?or = "radius (max_radius x1 y1 x2 y2) pout"
  let ?cx = "center x1 x2"
  let ?cy = "center y1 y2"
  let ?rows = "\<lambda>x dst. for_loop [0..<h]
       (\<lambda>y dst. if int y < y1 \<or> int y \<ge> y2 then Inr dst
                 else warp_pixel w h c src ?ir ?or ?cx ?cy inside x y dst) dst"
  let ?body = "\<lambda>x dst. if int x < x1 \<or> int x \<ge> x2 then Inr dst else ?rows x dst"
  let ?F = "\<lambda>x. {j. 0 < c \<and> (j div c) mod w = x \<and> (j div c) div w < h
                 \<and> x1 \<le> int x \<and> int x < x2
                 \<and> y1 \<le> int ((j div c) div w) \<and> int ((j div c) div w) < y2}"
  let ?V = "\<lambda>x j. warped_byte w h c src ?ir ?or ?cx ?cy inside x ((j div c) div w) (j mod c)"
  have loop: "for_loop [0..<w] ?body src = Inr dst"
    using run by (simp add: warp_region_def Let_def)
  have wr: "length dst = length src \<and>
     (\<forall>j<length src. (\<forall>k\<in>set [0..<w]. j \<in> ?F k \<longrightarrow> dst ! j = ?V k j) \<and>
                    ((\<forall>k\<in>set [0..<w]. j \<notin> ?F k) \<longrightarrow> dst ! j = src ! j))"
  proof (rule for_loop_writes[OF loop])
    show "distinct [0..<w]" by simp
  next
    fix k and t t' :: "byte list"
    assume k: "k \<in> set [0..<w]" and len: "length t = length src"
      and body: "?body k t = Inr t'"
    show "length t' = length t \<and> (\<forall>j<length t. t' ! j = (if j \<in> ?F k then ?V k j else t ! j))"
    proof (cases "int k < x1 \<or> int k \<ge> x2")
      case True
      then show ?thesis using body by auto
    next
      case False
      then have r: "?rows k t = Inr t'" using body by simp
      have kw: "k < w" using k by simp
      show ?thesis
        using row_loop_writes[OF r kw] False by auto
    qed
  next
    fix k k' :: nat assume "k \<noteq> k'"
    then show "?F k \<inter> ?F k' = {}" by auto
  qed
  show "length dst = length src" using wr by simp
  fix x y i assume x: "x < w" and y: "y < h" and i: "i < c"
    and j: "(y * w + x) * c + i < length src"
  let ?j = "(y * w + x) * c + i"
  have d: "?j div c = y * w + x" "?j mod c = i" using i by simp_all
  have d2: "(y * w + x) div w = y" "(y * w + x) mod w = x" using x by simp_all
  show "dst ! ?j = (if x1 \<le> int x \<and> int x < x2 \<and> y1 \<le> int y \<and> int y < y2
              then warped_byte w h c src ?ir ?or ?cx ?cy inside x y i
              else src ! ?j)"
  proof (cases "x1 \<le> int x \<and> int x < x2 \<and> y1 \<le> int y \<and> int y < y2")
    case True
    have "x \<in> set [0..<w]" using x by simp
    moreover have "?j \<in> ?F x" using True i y x by (simp add: d)
    ultimately have "dst ! ?j = ?V x ?j" using wr j by blast
    then show ?thesis using True x i by (simp add: d)
  next
    case False
    have "\<forall>k\<in>set [0..<w]. ?j \<notin> ?F k"
      using False x i by (auto simp: d)
    then have "dst ! ?j = src ! ?j" using wr j by blast
    then show ?thesis using False by auto
  qed
qed


lemma warp_pixel_length:
  "warp_pixel w h c src ir or' cx cy inside x y dst = Inr dst' \<Longrightarrow> length dst' = length dst"
proof -
  assume run: "warp_pixel w h c src ir or' cx cy inside x y dst = Inr dst'"
  have w: "0 < w" using run by (cases w) (simp_all add: warp_pixel_zero_width)
  have h: "0 < h" using run w by (cases h) (simp_all add: warp_pixel_zero_height)
  show ?thesis by (rule warp_pixel_writes(1)[OF run w h])
qed

lemma warp_pixel_in_range:
  assumes run: "warp_pixel w h c src ir or' cx cy inside x y dst = Inr dst'"
    and c: "0 < c"
  shows "(y * w + x) * c + c \<le> length dst"
    and "ratio_at ir or' cx cy x y \<ge> 0 \<or> inside \<Longrightarrow>
         (coord_at (real y - cy) (ratio_at ir or' cx cy x y) cy h * w
            + coord_at (real x - cx) (ratio_at ir or' cx cy x y) cx w) * c + c \<le> length src"
proof -
  have w: "0 < w" using run by (cases w) (simp_all add: warp_pixel_zero_width)
  have h: "0 < h" using run w by (cases h) (simp_all add: warp_pixel_zero_height)
  let ?R = "ratio_at ir or' cx cy x y"
  let ?p = "(y * w + x) * c"
  let ?q = "(coord_at (real y - cy) ?R cy h * w + coord_at (real x - cx) ?R cx w) * c"
  have loop: "for_loop [0..<c] (copy_byte src (int ?p) (int ?q) (?R \<ge> 0 \<or> inside)) dst = Inr dst'"
    using run by (simp only: warp_pixel_eq[OF w h])
  show "?p + c \<le> length dst" by (rule copy_pixel_in_range(1)[OF loop c])
  show "?R \<ge> 0 \<or> inside \<Longrightarrow> ?q + c \<le> length src"
    by (rule copy_pixel_in_range(2)[OF loop c])
qed

lemma warp_region_in_range:
  assumes run: "warp_region w h c src x1 y1 x2 y2 pin pout inside = Inr dst"
    and x: "x < w" and y: "y < h" and c: "0 < c"
    and roi: "x1 \<le> int x" "int x < x2" "y1 \<le> int y" "int y < y2"
  shows "(y * w + x) * c + c \<le> length src"
    and "ratio_at (radius (max_radius x1 y1 x2 y2) pin) (radius (max_radius x1 y1 x2 y2) pout)
           (center x1 x2) (center y1 y2) x y \<ge> 0 \<or> inside \<Longrightarrow>
         (coord_at (real y - center y1 y2)
            (ratio_at (radius (max_radius x1 y1 x2 y2) pin) (radius (max_radius x1 y1 x2 y2) pout)
               (center x1 x2) (center y1 y2) x y) (center y1 y2) h * w
          + coord_at (real x - center x1 x2)
            (ratio_at (radius (max_radius x1 y1 x2 y2) pin) (radius (max_radius x1 y1 x2 y2) pout)
               (center x1 x2) (center y1 y2) x y) (center x1 x2) w) * c + c \<le> length src"
proof -
  let ?ir = "radius (max_radius x1 y1 x2 y2) pin"
  let ?or = "radius (max_radius x1 y1 x2 y2) pout"
  let ?cx = "center x1 x2"
  let ?cy = "center y1 y2"
  let ?pix = "\<lambda>x y dst. if int y < y1 \<or> int y \<ge> y2 then Inr dst
                 else warp_pixel w h c src ?ir ?or ?cx ?cy inside x y dst"
  let ?rows = "\<lambda>x dst. for_loop [0..<h] (?pix x) dst"
  let ?body = "\<lambda>x dst. if int x < x1 \<or> int x \<ge> x2 then Inr dst else ?rows x dst"
  have loop: "for_loop [0..<w] ?body src = Inr dst"
    using run by (simp add: warp_region_def Let_def)
  have "\<forall>k\<in>set [0..<w]. \<exists>t t'. length t = length src \<and> ?body k t = Inr t'"
  proof (rule for_loop_all_ok[OF loop])
    show "length src = length src" by simp
  next
    fix k and t t' :: "byte list"
    assume k: "k \<in> set [0..<w]" and len: "length t = length src" and b: "?body k t = Inr t'"
    show "length t' = length src"
    proof (cases "int k < x1 \<or> int k \<ge> x2")
      case True
      then show ?thesis using b len by auto
    next
      case False
      then have r: "?rows k t = Inr t'" using b by simp
      have "k < w" using k by simp
      then show ?thesis using row_loop_writes(1)[OF r] len by simp
    qed
  qed
  moreover have "x \<in> set [0..<w]" using x by simp
  ultimately have "\<exists>t t'. length t = length src \<and> ?body x t = Inr t'"
    by (rule bspec)
  then obtain t t' where t: "length t = length src" "?body x t = Inr t'"
    by blast
  have rows: "?rows x t = Inr t'" using t(2) roi by simp
  have "\<forall>k\<in>set [0..<h]. \<exists>u u'. length u = length src \<and> ?pix x k u = Inr u'"
  proof (rule for_loop_all_ok[OF rows])
    show "length t = length src" by (rule t(1))
  next
    fix k and u u' :: "byte list"
    assume "length u = length src" and b: "?pix x k u = Inr u'"
    then show "length u' = length src"
      using warp_pixel_length[of w h c src ?ir ?or ?cx ?cy inside x k u u']
      by (cases "int k < y1 \<or> int k \<ge> y2") simp_all
  qed
  moreover have "y \<in> set [0..<h]" using y by simp
  ultimately have "\<exists>u u'. length u = length src \<and> ?pix x y u = Inr u'"
    by (rule bspec)
  then obtain u u' where u: "length u = length src" "?pix x y u = Inr u'"
    by blast
  have p: "warp_pixel w h c src ?ir ?or ?cx ?cy inside x y u = Inr u'"
    using u(2) roi by simp
  show "(y * w + x) * c + c \<le> length src"
    using warp_pixel_in_range(1)[OF p c] u(1) by simp
  show "ratio_at ?ir ?or ?cx ?cy x y \<ge> 0 \<or> inside \<Longrightarrow>
         (coord_at (real y - ?cy) (ratio_at ?ir ?or ?cx ?cy x y) ?cy h * w
          + coord_at (real x - ?cx) (ratio_at ?ir ?or ?cx ?cy x y) ?cx w) * c + c \<le> length src"
    by (rule warp_pixel_in_range(2)[OF p c])
qed

subsection \<open>The only error is an index out of range\<close>

lemma copy_byte_error:
  "copy_byte src po pw sample i dst = Inl e \<Longrightarrow> e = IndexError"
  by (auto simp: copy_byte_def and_then_Inl_iff array_get_def array_set_def Let_def
           split: if_splits)

lemma warp_pixel_error:
  assumes "warp_pixel w h c src ir or' cx cy inside x y dst = Inl e" "0 < w" "0 < h"
  shows "e = IndexError"
proof -
  have "for_loop [0..<c]
       (copy_byte src (int ((y * w + x) * c))
          (int ((coord_at (real y - cy) (ratio_at ir or' cx cy x y) cy h * w
                 + coord_at (real x - cx) (ratio_at ir or' cx cy x y) cx w) * c))
          (ratio_at ir or' cx cy x y \<ge> 0 \<or> inside)) dst = Inl e"
    using assms(1) by (simp only: warp_pixel_eq[OF assms(2,3)])
  then obtain k t where "copy_byte src (int ((y * w + x) * c))
          (int ((coord_at (real y - cy) (ratio_at ir or' cx cy x y) cy h * w
                 + coord_at (real x - cx) (ratio_at ir or' cx cy x y) cx w) * c))
          (ratio_at ir or' cx cy x y \<ge> 0 \<or> inside) k t = Inl e"
    by (blast dest: for_loop_error)
  then show ?thesis by (rule copy_byte_error)
qed

lemma warp_region_error:
  assumes "warp_region w h c src x1 y1 x2 y2 pin pout inside = Inl e"
  shows "e = IndexError"
proof -
  let ?ir = "radius (max_radius x1 y1 x2 y2) pin"
  let ?or = "radius (max_radius x1 y1 x2 y2) pout"
  let ?cx = "center x1 x2"
  let ?cy = "center y1 y2"
  let ?pix = "\<lambda>x y dst. if int y < y1 \<or> int y \<ge> y2 then Inr dst
                 else warp_pixel w h c src ?ir ?or ?cx ?cy inside x y dst"
  let ?rows = "\<lambda>x dst. for_loop [0..<h] (?pix x) dst"
  let ?body = "\<lambda>x dst. if int x < x1 \<or> int x \<ge> x2 then Inr dst else ?rows x dst"
  have "for_loop [0..<w] ?body src = Inl e"
    using assms by (simp add: warp_region_def Let_def)
  then obtain x t where x: "x \<in> set [0..<w]" and b: "?body x t = Inl e"
    using for_loop_error[of "[0..<w]" ?body src e] by blast
  have "?rows x t = Inl e" using b by (simp split: if_splits)
  then obtain y u where y: "y \<in> set [0..<h]" and p: "?pix x y u = Inl e"
    using for_loop_error[of "[0..<h]" "?pix x" t e] by blast
  have "warp_pixel w h c src ?ir ?or ?cx ?cy inside x y u = Inl e"
    using p by (simp split: if_splits)
  moreover have "0 < w" "0 < h" using x y by auto
  ultimately show ?thesis by (rule warp_pixel_error)
qed

subsection \<open>When the loop runs to its end\<close>

lemma pixel_fits:
  fixes k n c :: nat
  assumes "k < n"
  shows "k * c + c \<le> n * c"
proof -
  have "Suc k * c \<le> n * c" using assms by (intro mult_le_mono1) simp
  then show ?thesis by (simp add: add.commute)
qed

lemma pixel_index_less:
  fixes x y w h :: nat
  assumes "x < w" "y < h"
  shows "y * w + x < w * h"
proof -
  have "y * w + x < y * w + w" using assms(1) by simp
  also have "\<dots> = Suc y * w" by simp
  also have "\<dots> \<le> h * w" using assms(2) by (intro mult_le_mono1) simp
  finally show ?thesis by (simp add: mult.commute)
qed

lemma warp_region_ok:
  assumes len: "length src = w * h * c"
    and reads: "\<And>x y. x < w \<Longrightarrow> y < h \<Longrightarrow> x1 \<le> int x \<Longrightarrow> int x < x2 \<Longrightarrow>
        y1 \<le> int y \<Longrightarrow> int y < y2 \<Longrightarrow>
        ratio_at (radius (max_radius x1 y1 x2 y2) pin) (radius (max_radius x1 y1 x2 y2) pout)
           (center x1 x2) (center y1 y2) x y \<ge> 0 \<or> inside \<Longrightarrow>
        coord_at (real y - center y1 y2)
            (ratio_at (radius (max_radius x1 y1 x2 y2) pin) (radius (max_radius x1 y1 x2 y2) pout)
               (center x1 x2) (center y1 y2) x y) (center y1 y2) h * w
          + coord_at (real x - center x1 x2)
            (ratio_at (radius (max_radius x1 y1 x2 y2) pin) (radius (max_radius x1 y1 x2 y2) pout)
               (center x1 x2) (center y1 y2) x y) (center x1 x2) w < w * h"
  shows "\<exists>dst. warp_region w h c src x1 y1 x2 y2 pin pout inside = Inr dst"
proof -
  let ?ir = "radius (max_radius x1 y1 x2 y2) pin"
  let ?or = "radius (max_radius x1 y1 x2 y2) pout"
  let ?cx = "center x1 x2"
  let ?cy = "center y1 y2"
  let ?pix = "\<lambda>x y dst. if int y < y1 \<or> int y \<ge> y2 then Inr dst
                 else warp_pixel w h c src ?ir ?or ?cx ?cy inside x y dst"
  let ?rows = "\<lambda>x dst. for_loop [0..<h] (?pix x) dst"
  let ?body = "\<lambda>x dst. if int x < x1 \<or> int x \<ge> x2 then Inr dst else ?rows x dst"
  let ?I = "\<lambda>t::byte list. length t = length src"
  have pixel: "\<exists>t'. ?pix x y t = Inr t' \<and> ?I t'"
    if x: "x < w" "x1 \<le> int x" "int x < x2" and y: "y < h" and t: "?I t" for x y t
  proof (cases "int y < y1 \<or> int y \<ge> y2")
    case True
    then show ?thesis using t by simp
  next
    case False
    have w: "0 < w" and h: "0 < h" using x y by simp_all
    let ?R = "ratio_at ?ir ?or ?cx ?cy x y"
    let ?p = "(y * w + x) * c"
    let ?q = "(coord_at (real y - ?cy) ?R ?cy h * w + coord_at (real x - ?cx) ?R ?cx w) * c"
    have "?p + c \<le> (w * h) * c"
      by (rule pixel_fits) (rule pixel_index_less[OF x(1) y])
    then have p: "?p + c \<le> length t" using t len by simp
    have q: "?q + c \<le> length src" if "?R \<ge> 0 \<or> inside"
    proof -
      have "coord_at (real y - ?cy) ?R ?cy h * w + coord_at (real x - ?cx) ?R ?cx w < w * h"
        using reads[OF x(1) y x(2,3)] False that by simp
      then have "?q + c \<le> (w * h) * c" by (rule pixel_fits)
      then show ?thesis using len by simp
    qed
    have "\<exists>t'. for_loop [0..<c] (copy_byte src (int ?p) (int ?q) (?R \<ge> 0 \<or> inside)) t = Inr t'
            \<and> length t' = length t"
      by (rule copy_pixel_ok[OF p q])
    then show ?thesis
      using False t by (simp only: warp_pixel_eq[OF w h] if_False)
  qed
  have rows: "\<exists>t'. ?body x t = Inr t' \<and> ?I t'" if x: "x \<in> set [0..<w]" and t: "?I t" for x t
  proof (cases "int x < x1 \<or> int x \<ge> x2")
    case True
    then show ?thesis using t by simp
  next
    case False
    have "\<exists>t'. for_loop [0..<h] (?pix x) t = Inr t' \<and> ?I t'"
    proof (rule for_loop_ok[where I = ?I, OF t])
      fix k and u :: "byte list" assume "k \<in> set [0..<h]" "?I u"
      then show "\<exists>u'. ?pix x k u = Inr u' \<and> ?I u'"
        using pixel[of x k u] x False by simp
    qed
    then show ?thesis using False by simp
  qed
  have "\<exists>dst. for_loop [0..<w] ?body src = Inr dst \<and> ?I dst"
    by (rule for_loop_ok[where I = ?I]) (simp, rule rows)
  then obtain dst where "for_loop [0..<w] ?body src = Inr dst" by blast
  then have "warp_region w h c src x1 y1 x2 y2 pin pout inside = Inr dst"
    by (simp add: warp_region_def Let_def)
  then show ?thesis by blast
qed

text \<open>A read outside the source array ends the run with \<open>IndexError\<close>.\<close>

lemma warp_region_index_error:
  assumes x: "x < w" and y: "y < h" and c: "0 < c"
    and roi: "x1 \<le> int x" "int x < x2" "y1 \<le> int y" "int y < y2"
    and sample: "ratio_at (radius (max_radius x1 y1 x2 y2) pin) (radius (max_radius x1 y1 x2 y2) pout)
           (center x1 x2) (center y1 y2) x y \<ge> 0 \<or> inside"
    and out: "length src <
         (coord_at (real y - center y1 y2)
            (ratio_at (radius (max_radius x1 y1 x2 y2) pin) (radius (max_radius x1 y1 x2 y2) pout)
               (center x1 x2) (center y1 y2) x y) (center y1 y2) h * w
          + coord_at (real x - center x1 x2)
            (ratio_at (radius (max_radius x1 y1 x2 y2) pin) (radius (max_radius x1 y1 x2 y2) pout)
               (center x1 x2) (center y1 y2) x y) (center x1 x2) w) * c + c"
  shows "warp_region w h c src x1 y1 x2 y2 pin pout inside = Inl IndexError"
proof (cases "warp_region w h c src x1 y1 x2 y2 pin pout inside")
  case (Inl e)
  then show ?thesis using warp_region_error[OF Inl] by simp
next
  case (Inr dst)
  then show ?thesis
    using warp_region_in_range(2)[OF Inr x y c roi sample] out by simp
qed

subsection \<open>The ratio\<close>

lemma shape_nonpos: "ratio \<le> 0 \<Longrightarrow> shape ratio = ratio"
  by (simp add: shape_def)

lemma shaping_positive:
  fixes ratio :: real
  assumes "0 < ratio" "ratio \<le> 1"
  shows "0 < 1 - (1 - ratio)\<^sup>2" and "1 - (1 - ratio)\<^sup>2 \<le> 1"
proof -
  have "0 \<le> 1 - ratio" "1 - ratio < 1" using assms by simp_all
  then have "(1 - ratio)\<^sup>2 < 1\<^sup>2" by (intro power_strict_mono) simp_all
  then show "0 < 1 - (1 - ratio)\<^sup>2" by simp
  show "1 - (1 - ratio)\<^sup>2 \<le> 1" by simp
qed

lemma shape_pos:
  assumes "0 < ratio" "ratio \<le> 1"
  shows "shape ratio = sqrt (1 - (1 - ratio)\<^sup>2)" and "0 < shape ratio" and "shape ratio \<le> 1"
proof -
  note p = shaping_positive[OF assms]
  show eq: "shape ratio = sqrt (1 - (1 - ratio)\<^sup>2)"
    using assms(1) p(1) by (simp add: shape_def Let_def)
  show "0 < shape ratio" using p(1) by (simp add: eq)
  have "sqrt (1 - (1 - ratio)\<^sup>2) \<le> sqrt 1" using p(2) by (simp only: real_sqrt_le_iff)
  then show "shape ratio \<le> 1" by (simp add: eq)
qed

lemma shape_one: "shape 1 = 1"
  by (simp add: shape_def)

lemma shape_le_one: "ratio \<le> 1 \<Longrightarrow> shape ratio \<le> 1"
  using shape_pos(3)[of ratio] shape_nonpos[of ratio] by (cases "0 < ratio") simp_all

lemma ratio_at_le_one: "ratio_at ir or' cx cy x y \<le> 1"
  unfolding ratio_at_def by (rule shape_le_one) simp

lemma denom_pos: "ir \<le> or' \<Longrightarrow> 0 < denom ir or'"
  by (simp add: denom_def)

lemma denom_neg: "or' < ir \<Longrightarrow> denom ir or' = or' - ir \<and> denom ir or' < 0"
  by (simp add: denom_def)

lemma denom_equal: "denom ir ir = 1"
  by (simp add: denom_def)

text \<open>With a positive denominator: negative inside the inner radius, not negative from the
  inner radius on, one from the outer radius on when the two radii differ.\<close>

lemma ratio_at_inside:
  assumes "0 < denom ir or'" and "hypot (real x - cx) (real y - cy) < ir"
  shows "ratio_at ir or' cx cy x y = (hypot (real x - cx) (real y - cy) - ir) / denom ir or'"
    and "ratio_at ir or' cx cy x y < 0"
proof -
  let ?q = "(hypot (real x - cx) (real y - cy) - ir) / denom ir or'"
  have q: "?q < 0" using assms by (simp add: divide_neg_pos)
  then have "min 1 ?q = ?q" by simp
  then show "ratio_at ir or' cx cy x y = ?q"
    using q by (simp add: ratio_at_def shape_nonpos)
  then show "ratio_at ir or' cx cy x y < 0" using q by simp
qed

lemma ratio_at_outside_inner:
  assumes "0 < denom ir or'" and "ir \<le> hypot (real x - cx) (real y - cy)"
  shows "0 \<le> ratio_at ir or' cx cy x y"
proof -
  let ?q = "(hypot (real x - cx) (real y - cy) - ir) / denom ir or'"
  have q: "0 \<le> ?q" using assms by simp
  show ?thesis
  proof (cases "0 < min 1 ?q")
    case True
    then show ?thesis
      using shape_pos(2)[of "min 1 ?q"] by (simp add: ratio_at_def)
  next
    case False
    then have "min 1 ?q = 0" using q by (simp add: min_def split: if_splits)
    then show ?thesis by (simp add: ratio_at_def shape_def)
  qed
qed

lemma ratio_at_beyond_outer:
  assumes "ir < or'" and "or' \<le> hypot (real x - cx) (real y - cy)"
  shows "ratio_at ir or' cx cy x y = 1"
proof -
  let ?r = "hypot (real x - cx) (real y - cy)"
  have d: "denom ir or' = or' - ir" "0 < or' - ir" using assms(1) by (simp_all add: denom_def)
  have "1 \<le> (?r - ir) / (or' - ir)"
    using assms(2) d(2) by (simp add: pos_le_divide_eq)
  then have "min 1 ((?r - ir) / denom ir or') = 1" using d(1) by simp
  then show ?thesis by (simp add: ratio_at_def shape_one)
qed

text \<open>With a negative denominator the two sides of the inner radius change places.\<close>

lemma ratio_at_swapped_outside:
  assumes "or' < ir" and "ir < hypot (real x - cx) (real y - cy)"
  shows "ratio_at ir or' cx cy x y < 0"
proof -
  let ?q = "(hypot (real x - cx) (real y - cy) - ir) / denom ir or'"
  have q: "?q < 0" using assms denom_neg[OF assms(1)] by (simp add: divide_pos_neg)
  then have "min 1 ?q = ?q" by simp
  then show ?thesis using q by (simp add: ratio_at_def shape_nonpos)
qed

lemma ratio_at_swapped_inside:
  assumes "or' < ir" and "hypot (real x - cx) (real y - cy) < ir"
  shows "0 < ratio_at ir or' cx cy x y" and "ratio_at ir or' cx cy x y \<le> 1"
proof -
  let ?q = "(hypot (real x - cx) (real y - cy) - ir) / denom ir or'"
  have q: "0 < ?q" using assms denom_neg[OF assms(1)] by (simp add: divide_neg_neg)
  then have "0 < min 1 ?q" "min 1 ?q \<le> 1" by simp_all
  then show "0 < ratio_at ir or' cx cy x y"
    unfolding ratio_at_def by (rule shape_pos(2))
  show "ratio_at ir or' cx cy x y \<le> 1" by (rule ratio_at_le_one)
qed

lemma max_radius_pos: "x1 < x2 \<Longrightarrow> y1 < y2 \<Longrightarrow> 0 < max_radius x1 y1 x2 y2"
  by (simp add: max_radius_def)

lemma radius_mono: "0 < mr \<Longrightarrow> p \<le> q \<Longrightarrow> radius mr p \<le> radius mr q"
  by (simp add: radius_def mult_left_mono divide_right_mono)

lemma radius_strict_mono: "0 < mr \<Longrightarrow> p < q \<Longrightarrow> radius mr p < radius mr q"
  by (simp add: radius_def)

subsection \<open>The warped coordinate\<close>

lemma coord_at_small:
  assumes "0 \<le> d * ratio + c" "d * ratio + c < real n"
  shows "coord_at d ratio c n = nat \<lfloor>d * ratio + c + 1 / 2\<rfloor>"
proof -
  have n: "0 < real n" using assms by linarith
  have "\<lfloor>(d * ratio + c) / real n\<rfloor> = 0"
    using assms n by (simp add: floor_eq_iff pos_divide_less_eq)
  then show ?thesis by (simp add: coord_at_def)
qed

lemma coord_at_identity:
  assumes "x < w"
  shows "coord_at (real x - c) 1 c w = x"
proof -
  have "coord_at (real x - c) 1 c w = nat \<lfloor>(real x - c) * 1 + c + 1 / 2\<rfloor>"
    by (rule coord_at_small) (use assms in simp_all)
  also have "\<lfloor>(real x - c) * 1 + c + 1 / 2\<rfloor> = int x"
    by (simp add: floor_eq_iff)
  finally show ?thesis by simp
qed

text \<open>With a ratio from 0 to 1 the position lies between the centre and the pixel; in a
  rectangle of two or more columns inside the layer it rounds to a column of the rectangle.\<close>

lemma coord_at_between:
  assumes r: "0 \<le> ratio" "ratio \<le> 1"
    and roi: "x1 \<le> int x" "int x < x2" "0 \<le> x1" "x2 \<le> int w" "x2 - x1 \<noteq> 1"
  shows "coord_at (real x - center x1 x2) ratio (center x1 x2) w < w"
proof -
  let ?c = "center x1 x2"
  let ?v = "(real x - ?c) * ratio + ?c"
  have c_lo: "real_of_int x1 \<le> ?c" using roi by (simp add: center_def)
  have "x1 + 2 \<le> x2" using roi by linarith
  then have "real_of_int x1 + 2 \<le> real_of_int x2" by (metis of_int_le_iff of_int_add of_int_numeral)
  then have c_hi: "?c \<le> real_of_int x2 - 1" by (simp add: center_def)
  have x_lo: "real_of_int x1 \<le> real x" using roi(1) by (metis of_int_le_iff of_int_of_nat_eq)
  have "int x + 1 \<le> x2" using roi(2) by simp
  then have "real_of_int (int x + 1) \<le> real_of_int x2" by (simp only: of_int_le_iff)
  then have x_hi: "real x \<le> real_of_int x2 - 1" by simp
  have x2w: "real_of_int x2 \<le> real w" using roi(4) by (metis of_int_le_iff of_int_of_nat_eq)
  have x1_0: "0 \<le> real_of_int x1" using roi(3) by simp
  have conv: "?v = ratio * real x + (1 - ratio) * ?c" by (simp add: algebra_simps)
  have lo: "real_of_int x1 \<le> ?v"
  proof -
    have "ratio * real_of_int x1 \<le> ratio * real x" using x_lo r(1) by (rule mult_left_mono)
    moreover have "(1 - ratio) * real_of_int x1 \<le> (1 - ratio) * ?c"
      using c_lo r(2) by (intro mult_left_mono) simp_all
    ultimately have "ratio * real_of_int x1 + (1 - ratio) * real_of_int x1 \<le> ?v"
      unfolding conv by (rule add_mono)
    then show ?thesis by (simp add: algebra_simps)
  qed
  have hi: "?v \<le> real_of_int x2 - 1"
  proof -
    have "ratio * real x \<le> ratio * (real_of_int x2 - 1)" using x_hi r(1) by (rule mult_left_mono)
    moreover have "(1 - ratio) * ?c \<le> (1 - ratio) * (real_of_int x2 - 1)"
      using c_hi r(2) by (intro mult_left_mono) simp_all
    ultimately have "?v \<le> ratio * (real_of_int x2 - 1) + (1 - ratio) * (real_of_int x2 - 1)"
      unfolding conv by (rule add_mono)
    then show ?thesis by (simp add: algebra_simps)
  qed
  have v0: "0 \<le> ?v" using lo x1_0 by linarith
  have vw: "?v < real w" using hi x2w by linarith
  have "coord_at (real x - ?c) ratio ?c w = nat \<lfloor>?v + 1 / 2\<rfloor>"
    by (rule coord_at_small[OF v0 vw])
  moreover have "\<lfloor>?v + 1 / 2\<rfloor> < int w"
  proof -
    have "?v + 1 / 2 < real_of_int (int w)" using hi x2w by simp
    then show ?thesis by (simp only: floor_less_iff)
  qed
  moreover have "0 \<le> \<lfloor>?v + 1 / 2\<rfloor>" using v0 by (simp add: zero_le_floor)
  ultimately show ?thesis by linarith
qed

subsection \<open>Whole pixels of the result\<close>

lemma pixel_at_length: "k * c + c \<le> length buf \<Longrightarrow> length (pixel_at c buf k) = c"
  by (simp add: pixel_at_def)

lemma pixel_at_nth:
  "k * c + c \<le> length buf \<Longrightarrow> i < c \<Longrightarrow> pixel_at c buf k ! i = buf ! (k * c + i)"
  by (simp add: pixel_at_def)

lemma pixel_at_eqI:
  assumes "k * c + c \<le> length a" "k' * c + c \<le> length b"
    and "\<And>i. i < c \<Longrightarrow> a ! (k * c + i) = b ! (k' * c + i)"
  shows "pixel_at c a k = pixel_at c b k'"
proof (rule nth_equalityI)
  show "length (pixel_at c a k) = length (pixel_at c b k')"
    using assms(1,2) by (simp add: pixel_at_length)
next
  fix i assume "i < length (pixel_at c a k)"
  then have "i < c" using assms(1) by (simp add: pixel_at_length)
  then show "pixel_at c a k ! i = pixel_at c b k' ! i"
    using assms by (simp add: pixel_at_nth)
qed

lemma pixel_at_zeroI:
  assumes "k * c + c \<le> length a" and "\<And>i. i < c \<Longrightarrow> a ! (k * c + i) = 0"
  shows "pixel_at c a k = replicate c 0"
proof (rule nth_equalityI)
  show "length (pixel_at c a k) = length (replicate c (0::byte))"
    using assms(1) by (simp add: pixel_at_length)
next
  fix i assume "i < length (pixel_at c a k)"
  then have "i < c" using assms(1) by (simp add: pixel_at_length)
  then show "pixel_at c a k ! i = replicate c 0 ! i"
    using assms by (simp add: pixel_at_nth)
qed

lemma pixel_index_bound:
  fixes k n c :: nat
  assumes "k * c + c \<le> n * c" "0 < c"
  shows "k < n"
proof -
  have "Suc k * c \<le> n * c" using assms(1) by (simp add: add.commute)
  then have "Suc k \<le> n" using assms(2) by (simp only: mult_le_cancel2)
  then show ?thesis by simp
qed

lemma warp_region_pixel_outside:
  assumes run: "warp_region w h c src x1 y1 x2 y2 pin pout inside = Inr dst"
    and len: "length src = w * h * c"
    and x: "x < w" and y: "y < h"
    and out: "int x < x1 \<or> x2 \<le> int x \<or> int y < y1 \<or> y2 \<le> int y"
  shows "pixel_at c dst (y * w + x) = pixel_at c src (y * w + x)"
proof -
  have fit: "(y * w + x) * c + c \<le> length src"
    unfolding len by (rule pixel_fits) (rule pixel_index_less[OF x y])
  have ldst: "length dst = length src" by (rule warp_region_writes(1)[OF run])
  show ?thesis
  proof (rule pixel_at_eqI)
    show "(y * w + x) * c + c \<le> length dst" using fit ldst by simp
    show "(y * w + x) * c + c \<le> length src" by (rule fit)
  next
    fix i assume i: "i < c"
    then have j: "(y * w + x) * c + i < length src" using fit by simp
    show "dst ! ((y * w + x) * c + i) = src ! ((y * w + x) * c + i)"
      using warp_region_writes(2)[OF run x y i j] out by auto
  qed
qed

lemma warp_region_pixel_zero:
  assumes run: "warp_region w h c src x1 y1 x2 y2 pin pout inside = Inr dst"
    and len: "length src = w * h * c"
    and x: "x < w" and y: "y < h"
    and roi: "x1 \<le> int x" "int x < x2" "y1 \<le> int y" "int y < y2"
    and neg: "ratio_at (radius (max_radius x1 y1 x2 y2) pin) (radius (max_radius x1 y1 x2 y2) pout)
           (center x1 x2) (center y1 y2) x y < 0"
    and ins: "\<not> inside"
  shows "pixel_at c dst (y * w + x) = replicate c 0"
proof -
  have fit: "(y * w + x) * c + c \<le> length src"
    unfolding len by (rule pixel_fits) (rule pixel_index_less[OF x y])
  have ldst: "length dst = length src" by (rule warp_region_writes(1)[OF run])
  show ?thesis
  proof (rule pixel_at_zeroI)
    show "(y * w + x) * c + c \<le> length dst" using fit ldst by simp
  next
    fix i assume i: "i < c"
    then have j: "(y * w + x) * c + i < length src" using fit by simp
    show "dst ! ((y * w + x) * c + i) = 0"
      using warp_region_writes(2)[OF run x y i j] roi neg ins
      by (simp add: warped_byte_def Let_def)
  qed
qed

lemma warp_region_pixel_sampled:
  assumes run: "warp_region w h c src x1 y1 x2 y2 pin pout inside = Inr dst"
    and len: "length src = w * h * c"
    and x: "x < w" and y: "y < h"
    and roi: "x1 \<le> int x" "int x < x2" "y1 \<le> int y" "int y < y2"
    and ratio: "ratio = ratio_at (radius (max_radius x1 y1 x2 y2) pin)
           (radius (max_radius x1 y1 x2 y2) pout) (center x1 x2) (center y1 y2) x y"
    and sample: "0 \<le> ratio \<or> inside"
  shows "pixel_at c dst (y * w + x) =
           pixel_at c src (coord_at (real y - center y1 y2) ratio (center y1 y2) h * w
                             + coord_at (real x - center x1 x2) ratio (center x1 x2) w)"
    and "0 < c \<Longrightarrow> coord_at (real y - center y1 y2) ratio (center y1 y2) h * w
                             + coord_at (real x - center x1 x2) ratio (center x1 x2) w < w * h"
proof -
  let ?k = "coord_at (real y - center y1 y2) ratio (center y1 y2) h * w
              + coord_at (real x - center x1 x2) ratio (center x1 x2) w"
  have fit: "(y * w + x) * c + c \<le> length src"
    unfolding len by (rule pixel_fits) (rule pixel_index_less[OF x y])
  have ldst: "length dst = length src" by (rule warp_region_writes(1)[OF run])
  have inr: "?k * c + c \<le> length src" if "0 < c"
    using warp_region_in_range(2)[OF run x y that roi] sample
    unfolding ratio by simp
  show "0 < c \<Longrightarrow> ?k < w * h"
    using inr len pixel_index_bound[of ?k c "w * h"] by simp
  show "pixel_at c dst (y * w + x) = pixel_at c src ?k"
  proof (cases "0 < c")
    case False
    then show ?thesis by (simp add: pixel_at_def)
  next
    case True
    show ?thesis
    proof (rule pixel_at_eqI)
      show "(y * w + x) * c + c \<le> length dst" using fit ldst by simp
      show "?k * c + c \<le> length src" by (rule inr[OF True])
    next
      fix i assume i: "i < c"
      then have j: "(y * w + x) * c + i < length src" using fit by simp
      show "dst ! ((y * w + x) * c + i) = src ! (?k * c + i)"
        using warp_region_writes(2)[OF run x y i j] roi sample
        unfolding ratio by (simp add: warped_byte_def Let_def)
    qed
  qed
qed

subsection \<open>The function on an image and a layer\<close>

lemma gravilens_warp_region:
  "get_selection img = (x1, y1, x2, y2) \<Longrightarrow>
   gravilens_warp img l pin pout inside =
     warp_region (width l) (height l) (bpp l) (pixels l) x1 y1 x2 y2 pin pout inside"
  by (simp add: gravilens_warp_def)

lemma gravilens_warp_error:
  "gravilens_warp img l pin pout inside = Inl e \<Longrightarrow> e = IndexError"
  by (cases "get_selection img") (auto simp: gravilens_warp_def dest: warp_region_error)

text \<open>Without \<open>inside\<close>, on a rectangle inside the layer that is not a single column or
  row wide, every read is in range and the run returns an array.\<close>

lemma warp_region_returns:
  assumes len: "length src = w * h * c"
    and roi: "0 \<le> x1" "x2 \<le> int w" "0 \<le> y1" "y2 \<le> int h"
    and wide: "x2 - x1 \<noteq> 1" "y2 - y1 \<noteq> 1"
  shows "\<exists>dst. warp_region w h c src x1 y1 x2 y2 pin pout False = Inr dst"
proof (rule warp_region_ok[OF len])
  fix x y
  let ?R = "ratio_at (radius (max_radius x1 y1 x2 y2) pin) (radius (max_radius x1 y1 x2 y2) pout)
             (center x1 x2) (center y1 y2) x y"
  assume x: "x < w" "x1 \<le> int x" "int x < x2" and y: "y < h" "y1 \<le> int y" "int y < y2"
    and "0 \<le> ?R \<or> False"
  then have r0: "0 \<le> ?R" by simp
  have r1: "?R \<le> 1" by (rule ratio_at_le_one)
  have xw: "coord_at (real x - center x1 x2) ?R (center x1 x2) w < w"
    by (rule coord_at_between[OF r0 r1 x(2,3) roi(1,2) wide(1)])
  have yw: "coord_at (real y - center y1 y2) ?R (center y1 y2) h < h"
    by (rule coord_at_between[OF r0 r1 y(2,3) roi(3,4) wide(2)])
  show "coord_at (real y - center y1 y2) ?R (center y1 y2) h * w
          + coord_at (real x - center x1 x2) ?R (center x1 x2) w < w * h"
    by (rule pixel_index_less[OF xw yw])
qed

lemma gravilens_warp_returns:
  assumes "valid_layer l" and "get_selection img = (x1, y1, x2, y2)"
    and "0 \<le> x1" "x2 \<le> int (width l)" "0 \<le> y1" "y2 \<le> int (height l)"
    and "x2 - x1 \<noteq> 1" "y2 - y1 \<noteq> 1"
  shows "\<exists>dst. gravilens_warp img l pin pout False = Inr dst"
  unfolding gravilens_warp_region[OF assms(2)]
  by (rule warp_region_returns) (use assms in \<open>simp_all add: valid_layer_def\<close>)

subsection \<open>The whole result\<close>

text \<open>The byte number \<open>j\<close> belongs to the pixel \<open>((j div c) mod w, (j div c) div w)\<close>.\<close>

lemma byte_position:
  fixes j w h c :: nat
  assumes "j < w * h * c"
  shows "(j div c) mod w < w" and "(j div c) div w < h" and "j mod c < c"
    and "((j div c) div w * w + (j div c) mod w) * c + j mod c = j"
proof -
  have c: "0 < c" using assms by (cases c) simp_all
  have w: "0 < w" using assms by (cases w) simp_all
  show "(j div c) mod w < w" using w by simp
  show "j mod c < c" using c by simp
  have "j div c < w * h" using assms by (simp add: less_mult_imp_div_less)
  then have "j div c < h * w" by (simp add: mult.commute)
  then show "(j div c) div w < h" by (simp add: less_mult_imp_div_less)
  show "((j div c) div w * w + (j div c) mod w) * c + j mod c = j" by simp
qed

lemma warp_region_result:
  assumes run: "warp_region w h c src x1 y1 x2 y2 pin pout inside = Inr dst"
    and len: "length src = w * h * c"
  shows "dst = map (\<lambda>j. if x1 \<le> int ((j div c) mod w) \<and> int ((j div c) mod w) < x2
                             \<and> y1 \<le> int ((j div c) div w) \<and> int ((j div c) div w) < y2
                          then warped_byte w h c src (radius (max_radius x1 y1 x2 y2) pin)
                                 (radius (max_radius x1 y1 x2 y2) pout) (center x1 x2) (center y1 y2)
                                 inside ((j div c) mod w) ((j div c) div w) (j mod c)
                          else src ! j) [0..<w * h * c]"
proof (rule nth_equalityI)
  show "length dst = length (map (\<lambda>j. if x1 \<le> int ((j div c) mod w) \<and> int ((j div c) mod w) < x2
                             \<and> y1 \<le> int ((j div c) div w) \<and> int ((j div c) div w) < y2
                          then warped_byte w h c src (radius (max_radius x1 y1 x2 y2) pin)
                                 (radius (max_radius x1 y1 x2 y2) pout) (center x1 x2) (center y1 y2)
                                 inside ((j div c) mod w) ((j div c) div w) (j mod c)
                          else src ! j) [0..<w * h * c])"
    using warp_region_writes(1)[OF run] len by simp
next
  fix j assume "j < length dst"
  then have j: "j < w * h * c" using warp_region_writes(1)[OF run] len by simp
  note p = byte_position[OF j]
  have "(((j div c) div w) * w + (j div c) mod w) * c + j mod c < length src"
    using j len by (simp only: p(4))
  from warp_region_writes(2)[OF run p(1) p(2) p(3) this]
  show "dst ! j = map (\<lambda>j. if x1 \<le> int ((j div c) mod w) \<and> int ((j div c) mod w) < x2
                             \<and> y1 \<le> int ((j div c) div w) \<and> int ((j div c) div w) < y2
                          then warped_byte w h c src (radius (max_radius x1 y1 x2 y2) pin)
                                 (radius (max_radius x1 y1 x2 y2) pout) (center x1 x2) (center y1 y2)
                                 inside ((j div c) mod w) ((j div c) div w) (j mod c)
                          else src ! j) [0..<w * h * c] ! j"
    using j by (simp add: p(4))
qed

subsection \<open>Distances and square roots\<close>

lemma hypot_axis_x: "hypot d 0 = \<bar>d\<bar>"
  by (simp add: hypot_def)

lemma hypot_axis_y: "hypot 0 d = \<bar>d\<bar>"
  by (simp add: hypot_def)

lemma hypot_ge: "0 \<le> a \<Longrightarrow> a * a \<le> dx * dx + dy * dy \<Longrightarrow> a \<le> hypot dx dy"
  unfolding hypot_def by (rule real_le_rsqrt) (simp add: power2_eq_square)

lemma hypot_le: "0 \<le> a \<Longrightarrow> dx * dx + dy * dy \<le> a * a \<Longrightarrow> hypot dx dy \<le> a"
  unfolding hypot_def by (rule real_le_lsqrt) (simp_all add: power2_eq_square)

lemma hypot_gt: "0 \<le> a \<Longrightarrow> a * a < dx * dx + dy * dy \<Longrightarrow> a < hypot dx dy"
  unfolding hypot_def by (rule real_less_rsqrt) (simp add: power2_eq_square)

lemma hypot_lt: "0 < a \<Longrightarrow> dx * dx + dy * dy < a * a \<Longrightarrow> hypot dx dy < a"
  unfolding hypot_def by (rule real_less_lsqrt) (simp_all add: power2_eq_square)

subsection \<open>Runs that process no pixel\<close>



section \<open>Rounding to a double\<close>









subsection \<open>The shaping step in doubles\<close>






subsection \<open>Doubles of the run on a selection of 750 by 750 pixels\<close>















section \<open>Runs on the example inputs\<close>

subsection \<open>Runs that end with an error\<close>

lemma run_3x2_ratio:
  "ratio_at (radius (max_radius 0 0 3 2) 75) (radius (max_radius 0 0 3 2) 85)
     (center 0 3) (center 0 2) 1 1 = - 5 / 2"
  by (simp add: ratio_at_def max_radius_def radius_def center_def denom_def hypot_axis_x
      shape_def)

lemma run_3x2_x_warp: "coord_at (real 1 - center 0 3) (- 5 / 2) (center 0 3) 3 = 3"
  by (simp add: coord_at_def center_def)

lemma run_3x2_y_warp: "coord_at (real 1 - center 0 2) (- 5 / 2) (center 0 2) 2 = 1"
  by (simp add: coord_at_def center_def)

lemma run_3x2_error: "gravilens_warp img3x2 lay3x2 75 85 True = Inl IndexError"
proof -
  have sel: "get_selection img3x2 = (0, 0, 3, 2)"
    by (simp add: get_selection_def img3x2_def)
  have "warp_region 3 2 1 [1, 2, 3, 4, 5, 6] 0 0 3 2 75 85 True = Inl IndexError"
  proof (rule warp_region_index_error[where x = 1 and y = 1])
    show "length [1, 2, 3, 4, 5, 6 :: byte]
        < (coord_at (real 1 - center 0 2)
             (ratio_at (radius (max_radius 0 0 3 2) 75) (radius (max_radius 0 0 3 2) 85)
                (center 0 3) (center 0 2) 1 1) (center 0 2) 2 * 3
           + coord_at (real 1 - center 0 3)
             (ratio_at (radius (max_radius 0 0 3 2) 75) (radius (max_radius 0 0 3 2) 85)
                (center 0 3) (center 0 2) 1 1) (center 0 3) 3) * 1 + 1"
      unfolding run_3x2_ratio run_3x2_x_warp run_3x2_y_warp by simp
  qed simp_all
  then show ?thesis
    by (simp add: gravilens_warp_region[OF sel] lay3x2_def)
qed


lemma run_1x2_ratio:
  "ratio_at (radius (max_radius 0 0 1 2) 100) (radius (max_radius 0 0 1 2) 100)
     (center 0 1) (center 0 2) 0 1 = 0"
  by (simp add: ratio_at_def max_radius_def radius_def center_def denom_def hypot_axis_x
      shape_def)

lemma run_1x2_x_warp: "coord_at (real 0 - center 0 1) 0 (center 0 1) 1 = 1"
  by (simp add: coord_at_def center_def)

lemma run_1x2_y_warp: "coord_at (real 1 - center 0 2) 0 (center 0 2) 2 = 1"
  by (simp add: coord_at_def center_def)

lemma run_1x2_error: "gravilens_warp img1x2 lay1x2 100 100 False = Inl IndexError"
proof -
  have sel: "get_selection img1x2 = (0, 0, 1, 2)"
    by (simp add: get_selection_def img1x2_def)
  have "warp_region 1 2 1 [1, 2] 0 0 1 2 100 100 False = Inl IndexError"
  proof (rule warp_region_index_error[where x = 0 and y = 1])
    show "0 \<le> ratio_at (radius (max_radius 0 0 1 2) 100) (radius (max_radius 0 0 1 2) 100)
                 (center 0 1) (center 0 2) 0 1 \<or> False"
      unfolding run_1x2_ratio by simp
    show "length [1, 2 :: byte]
        < (coord_at (real 1 - center 0 2)
             (ratio_at (radius (max_radius 0 0 1 2) 100) (radius (max_radius 0 0 1 2) 100)
                (center 0 1) (center 0 2) 0 1) (center 0 2) 2 * 1
           + coord_at (real 0 - center 0 1)
             (ratio_at (radius (max_radius 0 0 1 2) 100) (radius (max_radius 0 0 1 2) 100)
                (center 0 1) (center 0 2) 0 1) (center 0 1) 1) * 1 + 1"
      unfolding run_1x2_ratio run_1x2_x_warp run_1x2_y_warp by simp
  qed simp_all
  then show ?thesis
    by (simp add: gravilens_warp_region[OF sel] lay1x2_def)
qed

lemma sqrt5_bounds: "11 / 5 < sqrt 5" "sqrt 5 < 9 / 4"
proof -
  show "11 / 5 < sqrt 5" by (rule real_less_rsqrt) (simp add: power2_eq_square)
  show "sqrt 5 < 9 / 4" by (rule real_less_lsqrt) (simp_all add: power2_eq_square)
qed

lemma run_8x8_ratio:
  "ratio_at (radius (max_radius 0 0 8 8) 100) (radius (max_radius 0 0 8 8) 100)
     (center 0 8) (center 0 8) 3 2 = sqrt 5 - 4"
  using sqrt5_bounds
  by (simp add: ratio_at_def max_radius_def radius_def center_def denom_def hypot_def shape_def)

lemma run_8x8_y_warp: "coord_at (real 2 - center 0 8) (sqrt 5 - 4) (center 0 8) 8 = 8"
proof -
  let ?v = "(real 2 - center 0 8) * (sqrt 5 - 4) + center 0 8"
  have v: "?v = 12 - 2 * sqrt 5" by (simp add: center_def algebra_simps)
  have lo: "15 / 2 < ?v" and hi: "?v < 8" using sqrt5_bounds unfolding v by simp_all
  have "coord_at (real 2 - center 0 8) (sqrt 5 - 4) (center 0 8) 8 = nat \<lfloor>?v + 1 / 2\<rfloor>"
    by (rule coord_at_small) (use lo hi in simp_all)
  moreover have "\<lfloor>?v + 1 / 2\<rfloor> = 8"
    using lo hi by (simp only: floor_eq_iff) simp
  ultimately show ?thesis by simp
qed

lemma run_8x8_error: "gravilens_warp img8 lay8 100 100 True = Inl IndexError"
proof -
  have sel: "get_selection img8 = (0, 0, 8, 8)"
    by (simp add: get_selection_def img8_def)
  have "warp_region 8 8 1 (replicate 64 7) 0 0 8 8 100 100 True = Inl IndexError"
  proof (rule warp_region_index_error[where x = 3 and y = 2])
    show "length (replicate 64 (7 :: byte))
        < (coord_at (real 2 - center 0 8)
             (ratio_at (radius (max_radius 0 0 8 8) 100) (radius (max_radius 0 0 8 8) 100)
                (center 0 8) (center 0 8) 3 2) (center 0 8) 8 * 8
           + coord_at (real 3 - center 0 8)
             (ratio_at (radius (max_radius 0 0 8 8) 100) (radius (max_radius 0 0 8 8) 100)
                (center 0 8) (center 0 8) 3 2) (center 0 8) 8) * 1 + 1"
      unfolding run_8x8_ratio run_8x8_y_warp by simp
  qed simp_all
  then show ?thesis
    by (simp add: gravilens_warp_region[OF sel] lay8_def)
qed

subsection \<open>Runs that return an array\<close>

lemmas run_defs = gravilens_warp_def get_selection_def warp_region_def Let_def
  max_radius_def radius_def center_def upt_conv_Cons warp_pixel_def
  final_ratio_def raw_ratio_def py_div_def denom_def hypot_def shape_def warp_coord_def
  py_mod_def py_round_def py_int_def copy_byte_def array_get_def array_set_def

lemma floor_minus_one: "\<lfloor>- 1 :: real\<rfloor> = - 1"
  using floor_uminus_of_int[of 1, where 'a = real] by simp

lemma sqrt_half: "1 < sqrt (1 / 2) * 2"
proof -
  have "1 / 2 < sqrt (1 / 2)" by (rule real_less_rsqrt) (simp add: power2_eq_square)
  then show ?thesis by simp
qed

lemma run_swapped: "gravilens_warp img2 lay2 100 50 False = Inr [0, 4, 4, 4]"
  by (simp add: img2_def lay2_def run_defs)

lemma run_black: "gravilens_warp img2 lay2 50 100 False = Inr [1, 2, 3, 0]"
  by (simp add: img2_def lay2_def run_defs)

lemma run_inside: "gravilens_warp img2 lay2 50 100 True = Inr [1, 2, 3, 4]"
  by (simp add: img2_def lay2_def run_defs floor_minus_one)

lemma run_selected: "gravilens_warp img2_sel lay2 100 0 False = Inr [0, 2, 3, 4]"
  using sqrt_half by (simp add: img2_sel_def lay2_def run_defs)

text \<open>Equal radii: the corner pixel has the raw ratio \<open>sqrt 2 - 1\<close>.\<close>

lemma sqrt2_bounds: "21 / 16 < sqrt 2" "sqrt 2 < 3 / 2"
proof -
  show "21 / 16 < sqrt 2" by (rule real_less_rsqrt) (simp add: power2_eq_square)
  show "sqrt 2 < 3 / 2" by (rule real_less_lsqrt) (simp_all add: power2_eq_square)
qed

lemma shape_corner: "1 / 2 < shape (sqrt 2 - 1)" "shape (sqrt 2 - 1) \<le> 1"
proof -
  have q: "0 < sqrt 2 - 1" "sqrt 2 - 1 \<le> 1" using sqrt2_bounds by simp_all
  have eq: "shape (sqrt 2 - 1) = sqrt (1 - (1 - (sqrt 2 - 1))\<^sup>2)" by (rule shape_pos(1)[OF q])
  show "shape (sqrt 2 - 1) \<le> 1" by (rule shape_pos(3)[OF q])
  have "(1 - (sqrt 2 - 1))\<^sup>2 = 6 - 4 * sqrt 2"
    by (simp add: power2_eq_square algebra_simps)
  then have "(1 / 2)\<^sup>2 < 1 - (1 - (sqrt 2 - 1))\<^sup>2"
    using sqrt2_bounds(1) by (simp add: power2_eq_square)
  then have "1 / 2 < sqrt (1 - (1 - (sqrt 2 - 1))\<^sup>2)" by (rule real_less_rsqrt)
  then show "1 / 2 < shape (sqrt 2 - 1)" by (simp only: eq)
qed


lemma list_of_four: "length xs = 4 \<Longrightarrow> xs = [xs ! 0, xs ! 1, xs ! 2, xs ! 3]"
  by (rule nth_equalityI) (auto simp: nth_Cons' less_Suc_eq numeral_eq_Suc)

lemma run_equal_radii: "gravilens_warp img2 lay2 100 100 False = Inr [1, 4, 4, 0]"
proof -
  let ?src = "[1, 2, 3, 4] :: byte list"
  let ?ir = "radius (max_radius 0 0 2 2) 100"
  let ?c = "center 0 2"
  have sel: "get_selection img2 = (0, 0, 2, 2)"
    by (simp add: get_selection_def img2_def)
  have ir: "?ir = 1" by (simp add: radius_def max_radius_def)
  have c: "?c = 1" by (simp add: center_def)
  obtain dst where run: "warp_region 2 2 1 ?src 0 0 2 2 100 100 False = Inr dst"
    using warp_region_returns[of ?src 2 2 1 0 2 0 2 100 100] by auto
  have len: "length dst = 4" using warp_region_writes(1)[OF run] by simp
  have r00: "ratio_at ?ir ?ir ?c ?c 0 0 = shape (sqrt 2 - 1)"
    using sqrt2_bounds by (simp add: ratio_at_def ir c denom_def hypot_def)
  have r10: "ratio_at ?ir ?ir ?c ?c 1 0 = 0"
    by (simp add: ratio_at_def ir c denom_def hypot_axis_y shape_def)
  have r01: "ratio_at ?ir ?ir ?c ?c 0 1 = 0"
    by (simp add: ratio_at_def ir c denom_def hypot_axis_x shape_def)
  have r11: "ratio_at ?ir ?ir ?c ?c 1 1 = - 1"
    by (simp add: ratio_at_def ir c denom_def hypot_def shape_def)
  have corner: "coord_at (real 0 - ?c) (shape (sqrt 2 - 1)) ?c 2 = 0"
  proof -
    let ?v = "(real 0 - ?c) * shape (sqrt 2 - 1) + ?c"
    have v: "0 \<le> ?v" "?v < 1 / 2" using shape_corner by (simp_all add: c)
    have "coord_at (real 0 - ?c) (shape (sqrt 2 - 1)) ?c 2 = nat \<lfloor>?v + 1 / 2\<rfloor>"
      by (rule coord_at_small) (use v in simp_all)
    moreover have "\<lfloor>?v + 1 / 2\<rfloor> = 0" using v by (simp only: floor_eq_iff) simp
    ultimately show ?thesis by simp
  qed
  have centre0: "coord_at (real 0 - ?c) 0 ?c 2 = 1" by (simp add: coord_at_def c)
  have centre1: "coord_at (real 1 - ?c) 0 ?c 2 = 1" by (simp add: coord_at_def c)
  have "dst ! 0 = warped_byte 2 2 1 ?src ?ir ?ir ?c ?c False 0 0 0"
    using warp_region_writes(2)[OF run, of 0 0 0] by simp
  also have "\<dots> = 1"
    unfolding warped_byte_def Let_def r00 corner using shape_corner(1) by simp
  finally have d0: "dst ! 0 = 1" .
  have "dst ! 1 = warped_byte 2 2 1 ?src ?ir ?ir ?c ?c False 1 0 0"
    using warp_region_writes(2)[OF run, of 1 0 0] by simp
  also have "\<dots> = 4"
    unfolding warped_byte_def Let_def r10 centre0 centre1 by simp
  finally have d1: "dst ! 1 = 4" .
  have "dst ! 2 = warped_byte 2 2 1 ?src ?ir ?ir ?c ?c False 0 1 0"
    using warp_region_writes(2)[OF run, of 0 1 0] by simp
  also have "\<dots> = 4"
    unfolding warped_byte_def Let_def r01 centre0 centre1 by simp
  finally have d2: "dst ! 2 = 4" .
  have "dst ! 3 = warped_byte 2 2 1 ?src ?ir ?ir ?c ?c False 1 1 0"
    using warp_region_writes(2)[OF run, of 1 1 0] by simp
  also have "\<dots> = 0"
    unfolding warped_byte_def Let_def r11 by simp
  finally have d3: "dst ! 3 = 0" .
  have "dst = [1, 4, 4, 0]"
    using list_of_four[OF len] by (simp only: d0 d1 d2 d3)
  then show ?thesis
    using run by (simp add: gravilens_warp_region[OF sel] lay2_def)
qed


text \<open>The layer of one colour: only the sign of the ratio shows in the result.\<close>

lemma uniform_nth:
  "k < n \<Longrightarrow> i < length p \<Longrightarrow> concat (replicate n p) ! (k * length p + i) = p ! i"
proof (induction n arbitrary: k)
  case 0
  then show ?case by simp
next
  case (Suc n)
  show ?case
  proof (cases k)
    case 0
    then show ?thesis using Suc.prems(2) by (simp add: nth_append)
  next
    case (Suc k')
    then have "k' < n" using Suc.prems(1) by simp
    then have "concat (replicate n p) ! (k' * length p + i) = p ! i"
      using Suc.IH Suc.prems(2) by simp
    then show ?thesis using Suc by (simp add: nth_append)
  qed
qed

lemma square_ge_one:
  fixes a :: real
  assumes "1 \<le> \<bar>a\<bar>"
  shows "1 \<le> a * a"
proof -
  have "1 * 1 \<le> \<bar>a\<bar> * \<bar>a\<bar>" using assms by (intro mult_mono) simp_all
  then show ?thesis by simp
qed

lemma off_centre:
  fixes x y :: nat
  assumes "x \<noteq> 2 \<or> y \<noteq> 2"
  shows "1 \<le> hypot (real x - 2) (real y - 2)"
proof (rule hypot_ge)
  show "(0::real) \<le> 1" by simp
  have sq: "0 \<le> (real x - 2) * (real x - 2)" "0 \<le> (real y - 2) * (real y - 2)" by simp_all
  from assms show "1 * 1 \<le> (real x - 2) * (real x - 2) + (real y - 2) * (real y - 2)"
  proof
    assume "x \<noteq> 2"
    then have "x \<le> 1 \<or> 3 \<le> x" by arith
    then have "1 \<le> \<bar>real x - 2\<bar>" by auto
    then have "1 \<le> (real x - 2) * (real x - 2)" by (rule square_ge_one)
    then show ?thesis using sq(2) by linarith
  next
    assume "y \<noteq> 2"
    then have "y \<le> 1 \<or> 3 \<le> y" by arith
    then have "1 \<le> \<bar>real y - 2\<bar>" by auto
    then have "1 \<le> (real y - 2) * (real y - 2)" by (rule square_ge_one)
    then show ?thesis using sq(1) by linarith
  qed
qed

lemma run_scenario:
  "gravilens_warp img4 lay4 50 100 False =
     Inr [10, 20, 30, 10, 20, 30, 10, 20, 30, 10, 20, 30,
          10, 20, 30, 10, 20, 30, 10, 20, 30, 10, 20, 30,
          10, 20, 30, 10, 20, 30, 0, 0, 0, 10, 20, 30,
          10, 20, 30, 10, 20, 30, 10, 20, 30, 10, 20, 30]"
proof -
  define src :: "byte list" where "src = concat (replicate 16 [10, 20, 30])"
  let ?ir = "radius (max_radius 0 0 4 4) 50"
  let ?or = "radius (max_radius 0 0 4 4) 100"
  let ?c = "center 0 4"
  let ?g = "\<lambda>j::nat. if j div 3 = 10 then 0 else [10, 20, 30 :: byte] ! (j mod 3)"
  have sel: "get_selection img4 = (0, 0, 4, 4)"
    by (simp add: get_selection_def img4_def)
  have ir: "?ir = 1" and or: "?or = 2" by (simp_all add: radius_def max_radius_def)
  have c: "?c = 2" by (simp add: center_def)
  have d: "0 < denom ?ir ?or" by (simp add: ir or denom_def)
  have len: "length src = 4 * 4 * 3"
    by (simp add: src_def length_concat sum_list_replicate)
  obtain dst where run: "warp_region 4 4 3 src 0 0 4 4 50 100 False = Inr dst"
    using warp_region_returns[OF len, of 0 4 0 4 50 100] by auto
  have byte: "(if 0 \<le> int ((j div 3) mod 4) \<and> int ((j div 3) mod 4) < 4
                    \<and> 0 \<le> int ((j div 3) div 4) \<and> int ((j div 3) div 4) < 4
               then warped_byte 4 4 3 src ?ir ?or ?c ?c False ((j div 3) mod 4) ((j div 3) div 4) (j mod 3)
               else src ! j) = ?g j" if j: "j < 4 * 4 * 3" for j
  proof -
    let ?x = "(j div 3) mod 4" and ?y = "(j div 3) div 4" and ?i = "j mod 3"
    let ?R = "ratio_at ?ir ?or ?c ?c ?x ?y"
    note p = byte_position[OF j]
    have roi: "0 \<le> int ?x" "int ?x < 4" "0 \<le> int ?y" "int ?y < 4" using p(1,2) by simp_all
    have pix: "j div 3 = 10 \<longleftrightarrow> ?x = 2 \<and> ?y = 2"
    proof
      assume "j div 3 = 10"
      then show "?x = 2 \<and> ?y = 2" by simp
    next
      assume a: "?x = 2 \<and> ?y = 2"
      have "j div 3 = ?y * 4 + ?x" by (simp only: div_mult_mod_eq)
      also have "\<dots> = 2 * 4 + 2" by (simp only: conjunct1[OF a] conjunct2[OF a])
      finally show "j div 3 = 10" by simp
    qed
    have "warped_byte 4 4 3 src ?ir ?or ?c ?c False ?x ?y ?i = ?g j"
    proof (cases "j div 3 = 10")
      case True
      then have xy: "?x = 2" "?y = 2" using pix by simp_all
      have "hypot (real ?x - ?c) (real ?y - ?c) < ?ir"
        unfolding xy ir c by (simp add: hypot_def)
      then have "?R < 0" by (rule ratio_at_inside(2)[OF d])
      then have w0: "warped_byte 4 4 3 src ?ir ?or ?c ?c False ?x ?y ?i = 0"
        unfolding warped_byte_def Let_def by simp
      show ?thesis by (simp only: w0 if_P[OF True])
    next
      case False
      then have "?x \<noteq> 2 \<or> ?y \<noteq> 2" using pix by simp
      then have "?ir \<le> hypot (real ?x - ?c) (real ?y - ?c)"
        unfolding ir c by (rule off_centre)
      then have r: "0 \<le> ?R" by (rule ratio_at_outside_inner[OF d])
      let ?k = "coord_at (real ?y - ?c) ?R ?c 4 * 4 + coord_at (real ?x - ?c) ?R ?c 4"
      have "?k < 4 * 4"
        by (rule warp_region_pixel_sampled(2)[OF run len p(1,2) roi refl]) (use r in simp_all)
      then have k: "?k < 16" by simp
      have l3: "length [10, 20, 30 :: byte] = 3" by simp
      have i3: "?i < length [10, 20, 30 :: byte]" unfolding l3 by (rule p(3))
      have "src ! (?k * length [10, 20, 30 :: byte] + ?i) = [10, 20, 30] ! ?i"
        unfolding src_def by (rule uniform_nth[OF k i3])
      then have u: "src ! (?k * 3 + ?i) = [10, 20, 30] ! ?i" unfolding l3 .
      have wk: "warped_byte 4 4 3 src ?ir ?or ?c ?c False ?x ?y ?i = src ! (?k * 3 + ?i)"
        unfolding warped_byte_def Let_def by (simp only: r simp_thms if_True)
      show ?thesis by (simp only: wk u if_not_P[OF False])
    qed
    then show ?thesis using roi by (simp only: simp_thms if_True)
  qed
  have "dst = map ?g [0..<4 * 4 * 3]"
    unfolding warp_region_result[OF run len]
    by (rule map_cong) (simp_all only: byte set_upt atLeastLessThan_iff)
  also have "\<dots> = [10, 20, 30, 10, 20, 30, 10, 20, 30, 10, 20, 30,
          10, 20, 30, 10, 20, 30, 10, 20, 30, 10, 20, 30,
          10, 20, 30, 10, 20, 30, 0, 0, 0, 10, 20, 30,
          10, 20, 30, 10, 20, 30, 10, 20, 30, 10, 20, 30]"
    by (simp add: upt_conv_Cons)
  finally have "dst = [10, 20, 30, 10, 20, 30, 10, 20, 30, 10, 20, 30,
          10, 20, 30, 10, 20, 30, 10, 20, 30, 10, 20, 30,
          10, 20, 30, 10, 20, 30, 0, 0, 0, 10, 20, 30,
          10, 20, 30, 10, 20, 30, 10, 20, 30, 10, 20, 30]" .
  moreover have "gravilens_warp img4 lay4 50 100 False = Inr dst"
    using run by (simp add: gravilens_warp_region[OF sel] lay4_def src_def)
  ultimately show ?thesis by (simp only:)
qed



subsection \<open>The loops for given radii\<close>

lemma warp_region_loops:
  "warp_region w h c src x1 y1 x2 y2 pin pout inside =
     warp_loops w h c src x1 y1 x2 y2 (radius (max_radius x1 y1 x2 y2) pin)
       (radius (max_radius x1 y1 x2 y2) pout) inside"
  by (simp add: warp_region_def warp_loops_def Let_def)

lemma radius_inverse: "mr \<noteq> 0 \<Longrightarrow> radius mr (100 * v / mr) = v"
  by (simp add: radius_def)

lemma warp_loops_region:
  assumes "max_radius x1 y1 x2 y2 \<noteq> 0"
  shows "warp_loops w h c src x1 y1 x2 y2 ir or' inside =
     warp_region w h c src x1 y1 x2 y2 (100 * ir / max_radius x1 y1 x2 y2)
       (100 * or' / max_radius x1 y1 x2 y2) inside"
  by (simp only: warp_region_loops radius_inverse[OF assms])

lemma run_3x2_exact_ratio:
  "ratio_at (radius (max_radius 0 0 3 2) (325 / 4)) (radius (max_radius 0 0 3 2) (375 / 4))
     (center 0 3) (center 0 2) 1 1 = - 5 / 2"
  by (simp add: ratio_at_def max_radius_def radius_def center_def denom_def hypot_axis_x
      shape_def)

lemma run_3x2_exact_error: "gravilens_warp img3x2 lay3x2 (325 / 4) (375 / 4) True = Inl IndexError"
proof -
  have sel: "get_selection img3x2 = (0, 0, 3, 2)"
    by (simp add: get_selection_def img3x2_def)
  have "warp_region 3 2 1 [1, 2, 3, 4, 5, 6] 0 0 3 2 (325 / 4) (375 / 4) True = Inl IndexError"
  proof (rule warp_region_index_error[where x = 1 and y = 1])
    show "length [1, 2, 3, 4, 5, 6 :: byte]
        < (coord_at (real 1 - center 0 2)
             (ratio_at (radius (max_radius 0 0 3 2) (325 / 4)) (radius (max_radius 0 0 3 2) (375 / 4))
                (center 0 3) (center 0 2) 1 1) (center 0 2) 2 * 3
           + coord_at (real 1 - center 0 3)
             (ratio_at (radius (max_radius 0 0 3 2) (325 / 4)) (radius (max_radius 0 0 3 2) (375 / 4))
                (center 0 3) (center 0 2) 1 1) (center 0 3) 3) * 1 + 1"
      unfolding run_3x2_exact_ratio run_3x2_x_warp run_3x2_y_warp by simp
  qed simp_all
  then show ?thesis
    by (simp add: gravilens_warp_region[OF sel] lay3x2_def)
qed

lemma run_black_loops: "warp_loops 2 2 1 [1, 2, 3, 4] 0 0 2 2 (1 / 2) 1 False = Inr [1, 2, 3, 0]"
proof -
  have sel: "get_selection img2 = (0, 0, 2, 2)"
    by (simp add: get_selection_def img2_def)
  have r: "radius (max_radius 0 0 2 2) 50 = 1 / 2" "radius (max_radius 0 0 2 2) 100 = 1"
    by (simp_all add: radius_def max_radius_def)
  have "warp_region 2 2 1 [1, 2, 3, 4] 0 0 2 2 50 100 False = Inr [1, 2, 3, 0]"
    using run_black by (simp add: gravilens_warp_region[OF sel] lay2_def)
  then show ?thesis by (simp only: warp_region_loops r)
qed

lemma run_equal_radii_loops:
  "warp_loops 2 2 1 [1, 2, 3, 4] 0 0 2 2 1 1 False = Inr [1, 4, 4, 0]"
proof -
  have sel: "get_selection img2 = (0, 0, 2, 2)"
    by (simp add: get_selection_def img2_def)
  have r: "radius (max_radius 0 0 2 2) 100 = 1"
    by (simp_all add: radius_def max_radius_def)
  have "warp_region 2 2 1 [1, 2, 3, 4] 0 0 2 2 100 100 False = Inr [1, 4, 4, 0]"
    using run_equal_radii by (simp add: gravilens_warp_region[OF sel] lay2_def)
  then show ?thesis by (simp only: warp_region_loops r)
qed


section \<open>The claims\<close>

text \<open>
  Claim C1. The warped coordinates stay below the width and the height, so that the
  position in the source array is inside it. The code does not keep it: the modulo brings
  the position into the interval from 0 to the width, and the rounding that follows takes
  a position in the last half pixel up to the width itself. On the 3 by 2 layer with no
  selection, the radii 81.25 and 93.75 and \<open>inside\<close> true, every float of the pixel
  \<open>(1, 1)\<close> is a binary fraction that the code computes exactly: the inner radius is
  0.8125, the denominator 0.125, the distance 0.5, the ratio -2.5 and the position 2.75,
  which rounds to \<open>x_warp = 3\<close>, the width. With \<open>y_warp = 1\<close> the read at
  \<open>(1 * 3 + 3) * 1\<close> is outside the 6 bytes of the source and the run ends with
  \<open>IndexError\<close>. The run with the radii 75 and 85 ends in the same way.
\<close>

theorem warp_coordinate_reaches_width:
  "get_selection img3x2 = (0, 0, 3, 2)
   \<and> radius (max_radius 0 0 3 2) (325 / 4) = 13 / 16
   \<and> denom (radius (max_radius 0 0 3 2) (325 / 4)) (radius (max_radius 0 0 3 2) (375 / 4)) = 1 / 8
   \<and> hypot (real 1 - center 0 3) (real 1 - center 0 2) = 1 / 2
   \<and> final_ratio (radius (max_radius 0 0 3 2) (325 / 4)) (radius (max_radius 0 0 3 2) (375 / 4))
         (center 0 3) (center 0 2) 1 1 = Inr (- 5 / 2)
   \<and> py_mod ((real 1 - center 0 3) * (- 5 / 2) + center 0 3) (real (width lay3x2)) = Inr (11 / 4)
   \<and> warp_coord (real 1 - center 0 3) (- 5 / 2) (center 0 3) (width lay3x2) = Inr 3
   \<and> warp_coord (real 1 - center 0 2) (- 5 / 2) (center 0 2) (height lay3x2) = Inr 1
   \<and> array_get (pixels lay3x2) ((1 * int (width lay3x2) + 3) * int (bpp lay3x2) + 0)
       = Inl IndexError
   \<and> gravilens_warp img3x2 lay3x2 (325 / 4) (375 / 4) True = Inl IndexError
   \<and> gravilens_warp img3x2 lay3x2 75 85 True = Inl IndexError"
proof -
  have "radius (max_radius 0 0 3 2) (325 / 4) = 13 / 16"
    by (simp add: radius_def max_radius_def)
  moreover have "denom (radius (max_radius 0 0 3 2) (325 / 4))
      (radius (max_radius 0 0 3 2) (375 / 4)) = 1 / 8"
    by (simp add: denom_def radius_def max_radius_def)
  moreover have "hypot (real 1 - center 0 3) (real 1 - center 0 2) = 1 / 2"
    by (simp add: center_def hypot_axis_x)
  moreover have "final_ratio (radius (max_radius 0 0 3 2) (325 / 4))
         (radius (max_radius 0 0 3 2) (375 / 4)) (center 0 3) (center 0 2) 1 1 = Inr (- 5 / 2)"
    by (simp only: final_ratio_eq run_3x2_exact_ratio)
  moreover have "py_mod ((real 1 - center 0 3) * (- 5 / 2) + center 0 3) (real (width lay3x2))
      = Inr (11 / 4)"
    by (simp add: py_mod_def center_def lay3x2_def)
  moreover have "warp_coord (real 1 - center 0 3) (- 5 / 2) (center 0 3) (width lay3x2) = Inr 3"
    using warp_coord_eq[of 3 "real 1 - center 0 3" "- 5 / 2" "center 0 3", unfolded run_3x2_x_warp]
    by (simp add: lay3x2_def)
  moreover have "warp_coord (real 1 - center 0 2) (- 5 / 2) (center 0 2) (height lay3x2) = Inr 1"
    using warp_coord_eq[of 2 "real 1 - center 0 2" "- 5 / 2" "center 0 2", unfolded run_3x2_y_warp]
    by (simp add: lay3x2_def)
  moreover have "array_get (pixels lay3x2) ((1 * int (width lay3x2) + 3) * int (bpp lay3x2) + 0)
       = Inl IndexError"
    by (simp add: array_get_def lay3x2_def)
  moreover have "get_selection img3x2 = (0, 0, 3, 2)"
    by (simp add: get_selection_def img3x2_def)
  ultimately show ?thesis using run_3x2_exact_error run_3x2_error by simp
qed

text \<open>
  Claim C2. A pixel of the rectangle nearer to the centre than the inner radius is black
  without \<open>inside\<close>, as the description of the parameter says (\<open>False\<close>: the values inside
  the inner radius are black). The code does not keep it when the outer percentage is below
  the inner one: the difference of the radii is then negative and the sign of the ratio
  turns. In the 2 by 2 layer with the radii 100 and 50 and \<open>inside\<close> false, the pixel
  \<open>(1, 1)\<close> lies at the centre, inside the inner radius 1, and the result holds the source
  byte 4 there, not a zero byte. (At this pixel the distance is 0, the ratio is
  \<open>(0 - 1) / (0.5 - 1) = 2\<close>, clamped to 1, and the position is the centre: every float is
  exact.)
\<close>

theorem inner_disk_sampled_when_radii_swapped:
  "hypot (real 1 - center 0 2) (real 1 - center 0 2) < radius (max_radius 0 0 2 2) 100
   \<and> get_selection img2 = (0, 0, 2, 2)
   \<and> gravilens_warp img2 lay2 100 50 False = Inr [0, 4, 4, 4]
   \<and> pixel_at (bpp lay2) [0, 4, 4, 4] (1 * width lay2 + 1) = [4]
   \<and> pixel_at (bpp lay2) [0, 4, 4, 4] (1 * width lay2 + 1) \<noteq> replicate (bpp lay2) 0"
  using run_swapped
  by (simp add: radius_def max_radius_def center_def hypot_def get_selection_def img2_def
      lay2_def pixel_at_def)

text \<open>
  Claim C3. Outside the selected rectangle the result holds the bytes of the source: when
  the function returns an array for a layer whose pixel array has width * height * bpp
  bytes, the array has the length of the source, and every pixel \<open>(x, y)\<close> of the layer with
  \<open>x < x1\<close>, \<open>x \<ge> x2\<close>, \<open>y < y1\<close> or \<open>y \<ge> y2\<close> has the same bytes in both.
\<close>

theorem outside_roi_unchanged:
  assumes "gravilens_warp img l pin pout inside = Inr dst"
    and "get_selection img = (x1, y1, x2, y2)"
    and "valid_layer l"
    and "x < width l" and "y < height l"
    and "int x < x1 \<or> x2 \<le> int x \<or> int y < y1 \<or> y2 \<le> int y"
  shows "length dst = length (pixels l) \<and>
         pixel_at (bpp l) dst (y * width l + x) = pixel_at (bpp l) (pixels l) (y * width l + x)"
proof -
  have run: "warp_region (width l) (height l) (bpp l) (pixels l) x1 y1 x2 y2 pin pout inside
               = Inr dst"
    using assms(1) by (simp only: gravilens_warp_region[OF assms(2)])
  have len: "length (pixels l) = width l * height l * bpp l"
    using assms(3) by (simp add: valid_layer_def)
  show ?thesis
    using warp_region_writes(1)[OF run]
      warp_region_pixel_outside[OF run len assms(4) assms(5) assms(6)]
    by simp
qed

theorem outside_roi_unchanged_witness:
  "gravilens_warp img2_sel lay2 100 0 False = Inr [0, 2, 3, 4]
   \<and> get_selection img2_sel = (0, 0, 1, 1) \<and> valid_layer lay2
   \<and> length [0, 2, 3, 4 :: byte] = length (pixels lay2)
   \<and> pixel_at (bpp lay2) [0, 2, 3, 4] (0 * width lay2 + 1)
       = pixel_at (bpp lay2) (pixels lay2) (0 * width lay2 + 1)"
proof -
  have sel: "get_selection img2_sel = (0, 0, 1, 1)"
    by (simp add: get_selection_def img2_sel_def)
  have lay: "valid_layer lay2" by (simp add: valid_layer_def lay2_def)
  have "length [0, 2, 3, 4 :: byte] = length (pixels lay2) \<and>
        pixel_at (bpp lay2) [0, 2, 3, 4] (0 * width lay2 + 1)
          = pixel_at (bpp lay2) (pixels lay2) (0 * width lay2 + 1)"
    by (rule outside_roi_unchanged[OF run_selected sel lay]) (simp_all add: lay2_def)
  then show ?thesis using run_selected sel lay by simp
qed

text \<open>
  Claim C4. With equal percentages no division by zero occurs, the denominator is 1 and
  the function still returns a whole array. The guard is there (the two radii are the
  same float, their difference is zero and the denominator is 1), but a whole array is
  not always returned, by the rounding defect of claim C1. On the 1 by 2 layer with both
  radii 100 and \<open>inside\<close> false every float of the pixel \<open>(0, 1)\<close> is exact: both radii
  are 0.5, the distance is 0.5, the ratio 0 and the position 0.5, which \<open>round\<close> of
  Python 2 takes to 1, the width, and the run ends with \<open>IndexError\<close>. So does, with no
  tie, the run on the 8 by 8 layer with both radii 100 and \<open>inside\<close> true.
\<close>

theorem equal_radii_index_error:
  "radius (max_radius 0 0 1 2) 100 = 1 / 2
   \<and> denom (radius (max_radius 0 0 1 2) 100) (radius (max_radius 0 0 1 2) 100) = 1
   \<and> hypot (real 0 - center 0 1) (real 1 - center 0 2) = 1 / 2
   \<and> final_ratio (radius (max_radius 0 0 1 2) 100) (radius (max_radius 0 0 1 2) 100)
         (center 0 1) (center 0 2) 0 1 = Inr 0
   \<and> py_mod ((real 0 - center 0 1) * 0 + center 0 1) (real (width lay1x2)) = Inr (1 / 2)
   \<and> warp_coord (real 0 - center 0 1) 0 (center 0 1) (width lay1x2) = Inr 1
   \<and> warp_coord (real 1 - center 0 2) 0 (center 0 2) (height lay1x2) = Inr 1
   \<and> array_get (pixels lay1x2) ((1 * int (width lay1x2) + 1) * int (bpp lay1x2) + 0)
       = Inl IndexError
   \<and> gravilens_warp img1x2 lay1x2 100 100 False = Inl IndexError
   \<and> gravilens_warp img8 lay8 100 100 True = Inl IndexError"
proof -
  have "radius (max_radius 0 0 1 2) 100 = 1 / 2"
    by (simp add: radius_def max_radius_def)
  moreover have "denom (radius (max_radius 0 0 1 2) 100) (radius (max_radius 0 0 1 2) 100) = 1"
    by (rule denom_equal)
  moreover have "hypot (real 0 - center 0 1) (real 1 - center 0 2) = 1 / 2"
    by (simp add: center_def hypot_axis_x)
  moreover have "final_ratio (radius (max_radius 0 0 1 2) 100) (radius (max_radius 0 0 1 2) 100)
         (center 0 1) (center 0 2) 0 1 = Inr 0"
    by (simp only: final_ratio_eq run_1x2_ratio)
  moreover have "py_mod ((real 0 - center 0 1) * 0 + center 0 1) (real (width lay1x2))
      = Inr (1 / 2)"
    by (simp add: py_mod_def center_def lay1x2_def)
  moreover have "warp_coord (real 0 - center 0 1) 0 (center 0 1) (width lay1x2) = Inr 1"
    using warp_coord_eq[of 1 "real 0 - center 0 1" 0 "center 0 1", unfolded run_1x2_x_warp]
    by (simp add: lay1x2_def)
  moreover have "warp_coord (real 1 - center 0 2) 0 (center 0 2) (height lay1x2) = Inr 1"
    using warp_coord_eq[of 2 "real 1 - center 0 2" 0 "center 0 2", unfolded run_1x2_y_warp]
    by (simp add: lay1x2_def)
  moreover have "array_get (pixels lay1x2) ((1 * int (width lay1x2) + 1) * int (bpp lay1x2) + 0)
       = Inl IndexError"
    by (simp add: array_get_def lay1x2_def)
  ultimately show ?thesis using run_1x2_error run_8x8_error by simp
qed

text \<open>
  Claim C5, as the code has it. Let the inner radius that the code computed be below the
  outer radius that it computed, and let the loops return an array. Then a pixel of the
  rectangle at the outer radius or farther from the centre has the final ratio 1, its
  warped coordinates are its own, and the result holds the bytes of the source there.
  The condition is on the two radii, not on the percentages: the guard of the denominator
  looks at the difference of the radii. In doubles the conclusion is the same: the
  distance that the code computes is not below the outer radius, the two differences are
  in the same order, their quotient is not below 1, \<open>min\<close> returns 1, the shaping step
  returns 1.0, and the position is the integer \<open>x\<close> itself.
\<close>

theorem beyond_outer_radius_unchanged:
  fixes x1 y1 x2 y2 :: int and inner_radius outer_radius :: real and x y :: nat
  assumes run: "warp_loops (width l) (height l) (bpp l) (pixels l) x1 y1 x2 y2
                  inner_radius outer_radius inside = Inr dst"
    and lay: "valid_layer l"
    and pixel: "x < width l" "y < height l" "x1 \<le> int x" "int x < x2" "y1 \<le> int y" "int y < y2"
    and order: "inner_radius < outer_radius"
    and far: "outer_radius \<le> hypot (real x - center x1 x2) (real y - center y1 y2)"
  shows "final_ratio inner_radius outer_radius (center x1 x2) (center y1 y2) x y = Inr 1
    \<and> warp_coord (real x - center x1 x2) 1 (center x1 x2) (width l) = Inr (int x)
    \<and> warp_coord (real y - center y1 y2) 1 (center y1 y2) (height l) = Inr (int y)
    \<and> pixel_at (bpp l) dst (y * width l + x) = pixel_at (bpp l) (pixels l) (y * width l + x)"
proof -
  let ?mr = "max_radius x1 y1 x2 y2"
  let ?cx = "center x1 x2" and ?cy = "center y1 y2"
  have "x1 < x2" "y1 < y2" using pixel by linarith+
  then have mr: "?mr \<noteq> 0" using max_radius_pos[of x1 x2 y1 y2] by simp
  have reg: "warp_region (width l) (height l) (bpp l) (pixels l) x1 y1 x2 y2
               (100 * inner_radius / ?mr) (100 * outer_radius / ?mr) inside = Inr dst"
    using run by (simp only: warp_loops_region[OF mr])
  have len: "length (pixels l) = width l * height l * bpp l"
    and pos: "0 < width l" "0 < height l" "0 < bpp l"
    using lay by (simp_all add: valid_layer_def)
  have one: "ratio_at inner_radius outer_radius ?cx ?cy x y = 1"
    by (rule ratio_at_beyond_outer[OF order far])
  have fin: "final_ratio inner_radius outer_radius ?cx ?cy x y = Inr 1"
    by (simp only: final_ratio_eq one)
  have xw: "coord_at (real x - ?cx) 1 ?cx (width l) = x" by (rule coord_at_identity[OF pixel(1)])
  have yw: "coord_at (real y - ?cy) 1 ?cy (height l) = y" by (rule coord_at_identity[OF pixel(2)])
  have wx: "warp_coord (real x - ?cx) 1 ?cx (width l) = Inr (int x)"
    by (simp only: warp_coord_eq[OF pos(1)] xw)
  have wy: "warp_coord (real y - ?cy) 1 ?cy (height l) = Inr (int y)"
    by (simp only: warp_coord_eq[OF pos(2)] yw)
  have Rdef: "1 = ratio_at (radius ?mr (100 * inner_radius / ?mr))
           (radius ?mr (100 * outer_radius / ?mr)) ?cx ?cy x y"
    by (simp only: radius_inverse[OF mr] one)
  have "pixel_at (bpp l) dst (y * width l + x)
      = pixel_at (bpp l) (pixels l)
          (coord_at (real y - ?cy) 1 ?cy (height l) * width l
            + coord_at (real x - ?cx) 1 ?cx (width l))"
    by (rule warp_region_pixel_sampled(1)[OF reg len pixel(1,2) pixel(3-6) Rdef]) simp
  then have "pixel_at (bpp l) dst (y * width l + x) = pixel_at (bpp l) (pixels l) (y * width l + x)"
    by (simp only: xw yw)
  then show ?thesis using fin wx wy by simp
qed

theorem beyond_outer_radius_unchanged_witness:
  "warp_loops (width lay2) (height lay2) (bpp lay2) (pixels lay2) 0 0 2 2 (1 / 2) 1 False
      = Inr [1, 2, 3, 0]
   \<and> valid_layer lay2
   \<and> (1 :: real) \<le> hypot (real 1 - center 0 2) (real 0 - center 0 2)
   \<and> final_ratio (1 / 2) 1 (center 0 2) (center 0 2) 1 0 = Inr 1
   \<and> warp_coord (real 1 - center 0 2) 1 (center 0 2) (width lay2) = Inr (int 1)
   \<and> warp_coord (real 0 - center 0 2) 1 (center 0 2) (height lay2) = Inr (int 0)
   \<and> pixel_at (bpp lay2) [1, 2, 3, 0] (0 * width lay2 + 1)
       = pixel_at (bpp lay2) (pixels lay2) (0 * width lay2 + 1)"
proof -
  have run: "warp_loops (width lay2) (height lay2) (bpp lay2) (pixels lay2) 0 0 2 2 (1 / 2) 1 False
      = Inr [1, 2, 3, 0]"
    using run_black_loops by (simp add: lay2_def)
  have lay: "valid_layer lay2" by (simp add: valid_layer_def lay2_def)
  have far: "(1 :: real) \<le> hypot (real 1 - center 0 2) (real 0 - center 0 2)"
    by (simp add: center_def hypot_def)
  have p: "1 < width lay2" "0 < height lay2" "0 \<le> int 1" "int 1 < 2" "0 \<le> int 0" "int 0 < 2"
      "(1 / 2 :: real) < 1"
    by (simp_all add: lay2_def)
  show ?thesis
    using run lay far beyond_outer_radius_unchanged[OF run lay p far] by blast
qed

text \<open>
  Claim C5 as stated fails with equal percentages: in the 2 by 2 layer with both radii
  100 (the radius is 1) the pixel \<open>(1, 0)\<close> lies at the distance 1 from the centre, at the
  outer radius, and the result holds there the byte 4 of the centre pixel, not its own
  byte 2.
\<close>

theorem outer_radius_displaced_when_radii_equal:
  "radius (max_radius 0 0 2 2) 100 \<le> hypot (real 1 - center 0 2) (real 0 - center 0 2)
   \<and> get_selection img2 = (0, 0, 2, 2)
   \<and> gravilens_warp img2 lay2 100 100 False = Inr [1, 4, 4, 0]
   \<and> pixel_at (bpp lay2) [1, 4, 4, 0] (0 * width lay2 + 1) = [4]
   \<and> pixel_at (bpp lay2) (pixels lay2) (0 * width lay2 + 1) = [2]"
  using run_equal_radii
  by (simp add: radius_def max_radius_def center_def hypot_def get_selection_def img2_def
      lay2_def pixel_at_def)

text \<open>
  Claim C6, as the code has it. On the 4 by 4 RGB layer with every pixel \<open>(10, 20, 30)\<close>,
  no selection, the radii 50 and 100 and \<open>inside\<close> false, the function returns an array of
  the same 48 bytes in which the pixel \<open>(2, 2)\<close> alone is \<open>(0, 0, 0)\<close>: the centre of the
  rectangle is the point \<open>(2, 2)\<close>, the inner radius is 1, and \<open>(2, 2)\<close> is the only pixel
  nearer to the centre than 1.
\<close>

theorem scenario_result:
  "gravilens_warp img4 lay4 50 100 False =
     Inr [10, 20, 30, 10, 20, 30, 10, 20, 30, 10, 20, 30,
          10, 20, 30, 10, 20, 30, 10, 20, 30, 10, 20, 30,
          10, 20, 30, 10, 20, 30, 0, 0, 0, 10, 20, 30,
          10, 20, 30, 10, 20, 30, 10, 20, 30, 10, 20, 30]"
  by (rule run_scenario)

text \<open>
  Claim C6 as stated fails: the result is not the array with the centre block of 2 by 2
  pixels black; the pixel \<open>(1, 1)\<close> of the result is \<open>(10, 20, 30)\<close>.
\<close>

theorem scenario_centre_block_not_black:
  "gravilens_warp img4 lay4 50 100 False \<noteq>
     Inr [10, 20, 30, 10, 20, 30, 10, 20, 30, 10, 20, 30,
          10, 20, 30, 0, 0, 0, 0, 0, 0, 10, 20, 30,
          10, 20, 30, 0, 0, 0, 0, 0, 0, 10, 20, 30,
          10, 20, 30, 10, 20, 30, 10, 20, 30, 10, 20, 30]"
  by (simp add: run_scenario)







end
